theory Spec2Isabelle
  imports Complex_Main
begin

section \<open>Shape key transfer: the data model\<close>

text \<open>
  This theory embeds the class \<open>ShapeKeyTransfer\<close> of \<^verbatim>\<open>shapekeytransfer.py\<close>:
  the vertex search (\<open>select_vertices\<close>, \<open>select_required_verts\<close>), the per-vertex
  update (\<open>update_vertex\<close>) and the driver \<open>transfer_shape_keys\<close>.

  Coordinates are Python floats in the program; they are idealised here as real numbers.
  The vector and matrix operations of the host's \<open>mathutils\<close> library are written out
  as the usual componentwise operations.  Every Python exception the modelled code can
  raise is a value \<open>Inl e\<close> of the result type.  The one recursive method,
  \<open>select_required_verts\<close>, is given twice: as the recursion, and with the frames of the
  interpreter's call stack counted, where running out of them is \<open>RecursionError\<close>.
\<close>

datatype py_error =
  AttributeError | IndexError | RecursionError | TypeError | ValueError | ZeroDivisionError

datatype Vector = Vector (vx: real) (vy: real) (vz: real)

text \<open>A 4x4 matrix, row by row.\<close>

datatype Row = Row real real real real

datatype Matrix = Matrix Row Row Row Row

fun vec_add :: "Vector \<Rightarrow> Vector \<Rightarrow> Vector" where
  "vec_add (Vector a b c) (Vector x y z) = Vector (a + x) (b + y) (c + z)"

fun vec_sub :: "Vector \<Rightarrow> Vector \<Rightarrow> Vector" where
  "vec_sub (Vector a b c) (Vector x y z) = Vector (a - x) (b - y) (c - z)"

text \<open>\<open>v /= n\<close>: division of a vector by a number raises on zero.\<close>

fun vec_div :: "Vector \<Rightarrow> nat \<Rightarrow> py_error + Vector" where
  "vec_div (Vector a b c) n =
     (if n = 0 then Inl ZeroDivisionError
      else Inr (Vector (a / real n) (b / real n) (c / real n)))"

fun vec_length :: "Vector \<Rightarrow> real" where
  "vec_length (Vector a b c) = sqrt (a * a + b * b + c * c)"

text \<open>
  \<open>M @ v\<close> for a 4x4 matrix and a 3D vector: the vector is extended by a fourth
  component 1, multiplied, and the first three components of the product are kept.
\<close>

fun row_dot :: "Row \<Rightarrow> Vector \<Rightarrow> real" where
  "row_dot (Row a b c d) (Vector x y z) = a * x + b * y + c * z + d"

fun mat_vec :: "Matrix \<Rightarrow> Vector \<Rightarrow> Vector" where
  "mat_vec (Matrix r0 r1 r2 r3) v = Vector (row_dot r0 v) (row_dot r1 v) (row_dot r2 v)"

text \<open>
  A shape key (an entry of \<open>key_blocks\<close>): its name and one position per vertex
  (\<open>data[i].co\<close>).  An object carries its world matrix, the vertices of its mesh
  (\<open>data.vertices\<close>) and the key blocks of its mesh; \<open>shape_keys = None\<close> is a mesh
  without shape keys (\<open>data.shape_keys\<close> is \<open>None\<close> and has no \<open>key_blocks\<close>).
\<close>

record ShapeKey =
  name :: string
  data :: "Vector list"

record Object =
  matrix_world :: Matrix
  vertices :: "Vector list"
  shape_keys :: "ShapeKey list option"

text \<open>The scene property \<open>listUse\<close>, an enumeration of the items \<^verbatim>\<open>all\<close>, \<^verbatim>\<open>include\<close>, \<^verbatim>\<open>exclude\<close>.\<close>

datatype ListUse = use_all | use_include | use_exclude

text \<open>The fields of \<open>ShapeKeyTransfer\<close>, as \<open>__init__\<close> declares them.\<close>

record ShapeKeyTransfer =
  increment_radius :: real
  number_of_increments :: int
  current_vertex_index :: nat
  total_vertices :: nat
  specify_end_vertex :: bool
  use_one_vertex :: bool
  default_excluded_keys :: "string list"
  excluded_shape_keys :: "string list"
  dest_mesh :: "Object option"
  src_mesh :: "Object option"
  src_mwi :: "Matrix option"
  dest_shape_key_index :: nat
  src_shape_key_index :: nat
  do_once_per_vertex :: bool
  current_vertex :: "Vector option"
  src_chosen_vertices :: "nat list"
  message :: string
  skip_vertices_with_no_pair :: bool

subsection \<open>Attribute and index access\<close>

text \<open>\<open>ob.data.shape_keys.key_blocks\<close> for an object reference that may be \<open>None\<close>.\<close>

definition key_blocks :: "Object option \<Rightarrow> py_error + ShapeKey list" where
  "key_blocks ob =
     (case ob of None \<Rightarrow> Inl AttributeError
      | Some m \<Rightarrow> (case shape_keys m of None \<Rightarrow> Inl AttributeError | Some kbs \<Rightarrow> Inr kbs))"

text \<open>\<open>xs[i]\<close> for an index that is never negative.\<close>

definition item :: "'a list \<Rightarrow> nat \<Rightarrow> py_error + 'a" where
  "item xs i = (if i < length xs then Inr (xs ! i) else Inl IndexError)"

text \<open>\<open>ob.data.shape_keys.key_blocks[k].data\<close>.\<close>

definition key_data :: "Object option \<Rightarrow> nat \<Rightarrow> py_error + Vector list" where
  "key_data ob k =
     (case key_blocks ob of Inl e \<Rightarrow> Inl e
      | Inr kbs \<Rightarrow> (case item kbs k of Inl e \<Rightarrow> Inl e | Inr sk \<Rightarrow> Inr (data sk)))"

text \<open>\<open>ob.data.shape_keys.key_blocks[k].data[i].co\<close>.\<close>

definition key_co :: "Object option \<Rightarrow> nat \<Rightarrow> nat \<Rightarrow> py_error + Vector" where
  "key_co ob k i = (case key_data ob k of Inl e \<Rightarrow> Inl e | Inr ps \<Rightarrow> item ps i)"

section \<open>The vertex search\<close>

text \<open>
  The body of the scan loop of \<open>select_vertices\<close>.  The loop state is
  \<open>(src_chosen_vertices, closest_length, closest_vertex_index)\<close>.
\<close>

fun select_step ::
  "bool \<Rightarrow> Vector \<Rightarrow> real \<Rightarrow> nat \<times> Vector \<Rightarrow> nat list \<times> real \<times> int \<Rightarrow> nat list \<times> real \<times> int"
where
  "select_step use_one lco rlen (index, v) (chosen, closest_length, closest_vertex_index) =
     (if vec_length (vec_sub v lco) \<le> rlen then
        (if use_one then
           (if vec_length (vec_sub v lco) \<le> closest_length
            then (chosen @ [index], vec_length (vec_sub v lco), int index)
            else (chosen @ [index], closest_length, closest_vertex_index))
         else (chosen @ [index], closest_length, closest_vertex_index))
      else (chosen, closest_length, closest_vertex_index))"

definition select_vertices :: "ShapeKeyTransfer \<Rightarrow> Vector \<Rightarrow> real \<Rightarrow> py_error + nat list" where
  "select_vertices s center radius =
     (let radius_vec = vec_add center (Vector 0 0 radius) in
      case src_mwi s of None \<Rightarrow> Inl TypeError
      | Some mwi \<Rightarrow>
        (let lco = mat_vec mwi center;
             r = vec_sub (mat_vec mwi radius_vec) lco
         in case key_data (src_mesh s) 0 of Inl e \<Rightarrow> Inl e
            | Inr vs \<Rightarrow>
              (case fold (select_step (use_one_vertex s) lco (vec_length r)) (enumerate 0 vs)
                      ([], vec_length r, - 1) of
                 (chosen, closest_length, closest_vertex_index) \<Rightarrow>
                   if use_one_vertex s
                   then (if closest_vertex_index > - 1
                         then Inr ([] @ [nat closest_vertex_index]) else Inr [])
                   else Inr chosen)))"

text \<open>
  \<open>select_required_verts\<close>, first as the recursion it is: this is what the method
  returns whenever the interpreter's call stack is deep enough for its nested calls.
\<close>

function select_required_verts ::
  "ShapeKeyTransfer \<Rightarrow> Vector \<Rightarrow> real \<Rightarrow> int \<Rightarrow> py_error + nat list"
where
  "select_required_verts s vert rad level =
     (if level > number_of_increments s then Inr []
      else case select_vertices s vert rad of Inl e \<Rightarrow> Inl e
           | Inr verts \<Rightarrow>
               if length verts = 0
               then select_required_verts s vert (rad + increment_radius s) (level + 1)
               else Inr verts)"
  by pat_completeness auto
termination
  by (relation "measure (\<lambda>(s, vert, rad, level). nat (number_of_increments s + 1 - level))") auto

declare select_required_verts.simps [simp del]


section \<open>Updating one destination vertex\<close>

text \<open>\<open>str(n)\<close> for a non-negative integer.\<close>

definition digit :: "nat \<Rightarrow> char" where
  "digit n = ''0123456789'' ! n"

fun str :: "nat \<Rightarrow> string" where
  "str n = (if n < 10 then [digit n] else str (n div 10) @ [digit (n mod 10)])"

declare str.simps [simp del]

text \<open>
  \<open>update_global_shapekey_indices\<close>: each loop keeps the index of the last key block
  of the given name, and leaves the stored index as it was when no block has that name.
\<close>

definition index_of_name :: "string \<Rightarrow> ShapeKey list \<Rightarrow> nat \<Rightarrow> nat" where
  "index_of_name p_key_name kbs cur =
     fold (\<lambda>(index, sk) i. if name sk = p_key_name then index else i) (enumerate 0 kbs) cur"

definition update_global_shapekey_indices ::
  "string \<Rightarrow> ShapeKeyTransfer \<Rightarrow> py_error + ShapeKeyTransfer"
where
  "update_global_shapekey_indices p_key_name s =
     (case key_blocks (dest_mesh s) of Inl e \<Rightarrow> Inl e
      | Inr dkbs \<Rightarrow>
        (case key_blocks (src_mesh s) of Inl e \<Rightarrow> Inl e
         | Inr skbs \<Rightarrow>
             Inr (s\<lparr>dest_shape_key_index := index_of_name p_key_name dkbs (dest_shape_key_index s),
                    src_shape_key_index := index_of_name p_key_name skbs (src_shape_key_index s)\<rparr>)))"

text \<open>\<open>set_vertex_position\<close>: one write into the destination's key blocks.\<close>

definition set_vertex_position :: "Vector \<Rightarrow> ShapeKeyTransfer \<Rightarrow> py_error + ShapeKeyTransfer" where
  "set_vertex_position v_pos s =
     (case dest_mesh s of None \<Rightarrow> Inl AttributeError
      | Some d \<Rightarrow>
        (case shape_keys d of None \<Rightarrow> Inl AttributeError
         | Some kbs \<Rightarrow>
             if dest_shape_key_index s < length kbs then
               (let sk = kbs ! dest_shape_key_index s in
                if current_vertex_index s < length (data sk) then
                  Inr (s\<lparr>dest_mesh := Some (d\<lparr>shape_keys := Some (kbs[dest_shape_key_index s :=
                         sk\<lparr>data := (data sk)[current_vertex_index s := v_pos]\<rparr>])\<rparr>)\<rparr>)
                else Inl IndexError)
             else Inl IndexError))"

text \<open>
  The block of \<open>update_vertex\<close> guarded by \<open>do_once_per_vertex\<close>: the world position of
  the current destination vertex and the search around it.
\<close>

definition search_once :: "ShapeKeyTransfer \<Rightarrow> py_error + ShapeKeyTransfer" where
  "search_once s =
     (if do_once_per_vertex s then
        (case dest_mesh s of None \<Rightarrow> Inl AttributeError
         | Some d \<Rightarrow>
           (case key_co (dest_mesh s) 0 (current_vertex_index s) of Inl e \<Rightarrow> Inl e
            | Inr co \<Rightarrow>
              (let s1 = s\<lparr>current_vertex := Some (mat_vec (matrix_world d) co)\<rparr> in
               case select_required_verts s1 (mat_vec (matrix_world d) co) 0 0 of
                 Inl e \<Rightarrow> Inl e
               | Inr verts \<Rightarrow>
                   Inr (s1\<lparr>src_chosen_vertices := verts, do_once_per_vertex := False\<rparr>))))
      else Inr s)"

text \<open>
  The two averaging loops of \<open>update_vertex\<close>: the positions of the chosen vertices in
  one key block are added up, starting from \<open>Vector()\<close>, and divided by their number.
\<close>

fun sum_positions :: "Vector list \<Rightarrow> nat list \<Rightarrow> Vector \<Rightarrow> py_error + Vector" where
  "sum_positions ps [] result_position = Inr result_position"
| "sum_positions ps (v # vs) result_position =
     (case item ps v of Inl e \<Rightarrow> Inl e
      | Inr co \<Rightarrow> sum_positions ps vs (vec_add result_position co))"

definition average_position :: "Vector list \<Rightarrow> nat list \<Rightarrow> py_error + Vector" where
  "average_position ps chosen =
     (case sum_positions ps chosen (Vector 0 0 0) of Inl e \<Rightarrow> Inl e
      | Inr result_position \<Rightarrow> vec_div result_position (length chosen))"

text \<open>
  \<open>update_vertex\<close>.  The returned flag is the method's return value: \<open>True\<close> asks the
  caller to abort the transfer.
\<close>

definition update_vertex :: "ShapeKeyTransfer \<Rightarrow> py_error + bool \<times> ShapeKeyTransfer" where
  "update_vertex s =
     (if current_vertex_index s \<ge> total_vertices s then Inr (False, s)
      else case search_once s of Inl e \<Rightarrow> Inl e
      | Inr s1 \<Rightarrow>
        if length (src_chosen_vertices s1) = 0 then
          (let s2 = s1\<lparr>message :=
                      ''Failed to find surrounding vertices | Try increasing increment radius | vertex index ''
                        @ str (current_vertex_index s1) @ '' at shape key index ''
                        @ str (src_shape_key_index s1)\<rparr>;
               s3 = s2\<lparr>current_vertex_index := current_vertex_index s2 + 1\<rparr>
           in if \<not> skip_vertices_with_no_pair s3 then Inr (True, s3) else Inr (False, s3))
        else
          (case key_data (src_mesh s1) 0 of Inl e \<Rightarrow> Inl e
           | Inr basis \<Rightarrow>
             (case average_position basis (src_chosen_vertices s1) of Inl e \<Rightarrow> Inl e
              | Inr result_position \<Rightarrow>
                (case key_data (src_mesh s1) (src_shape_key_index s1) of Inl e \<Rightarrow> Inl e
                 | Inr target \<Rightarrow>
                   (case average_position target (src_chosen_vertices s1) of Inl e \<Rightarrow> Inl e
                    | Inr result_position2 \<Rightarrow>
                      (case current_vertex s1 of None \<Rightarrow> Inl TypeError
                       | Some cv \<Rightarrow>
                         (case set_vertex_position
                                 (vec_add (vec_sub result_position2 result_position) cv) s1 of
                            Inl e \<Rightarrow> Inl e
                          | Inr s2 \<Rightarrow> Inr (False, s2))))))))"

section \<open>The transfer\<close>

text \<open>
  The loop over the key names of the work list, inside the loop over the vertices.  The
  flag is \<open>True\<close> when \<open>update_vertex\<close> asked to abort, which ends both loops.
\<close>

fun for_key_names :: "string list \<Rightarrow> ShapeKeyTransfer \<Rightarrow> py_error + bool \<times> ShapeKeyTransfer" where
  "for_key_names [] s = Inr (False, s)"
| "for_key_names (key_name # rest) s =
     (case update_global_shapekey_indices key_name s of Inl e \<Rightarrow> Inl e
      | Inr s1 \<Rightarrow>
        (case update_vertex s1 of Inl e \<Rightarrow> Inl e
         | Inr (abort, s2) \<Rightarrow> if abort then Inr (True, s2) else for_key_names rest s2))"

text \<open>
  The loop over all vertices of the destination mesh, with the statements that follow it.
  The flag of the result is the return value of \<open>transfer_shape_keys\<close>.
\<close>

function while_vertices ::
  "string list \<Rightarrow> ShapeKeyTransfer \<Rightarrow> py_error + bool \<times> ShapeKeyTransfer"
where
  "while_vertices local_shape_key_list s =
     (if current_vertex_index s < total_vertices s then
        (case for_key_names local_shape_key_list (s\<lparr>do_once_per_vertex := True\<rparr>) of
           Inl e \<Rightarrow> Inl e
         | Inr (abort, s1) \<Rightarrow>
             if abort then Inr (False, s1)
             else while_vertices local_shape_key_list
                    (s1\<lparr>current_vertex_index := current_vertex_index s1 + 1\<rparr>))
      else Inr (True, s\<lparr>message := ''Transferred Shape Keys successfully!''\<rparr>))"
  by pat_completeness auto
termination
proof (relation "measure (\<lambda>(l, s). total_vertices s - current_vertex_index s)", goal_cases)
  case 1
  show ?case by simp
next
  case (2 l s b abort s1)
  have ugsi: "\<And>k a b. update_global_shapekey_indices k a = Inr b \<Longrightarrow>
      total_vertices b = total_vertices a \<and> current_vertex_index b = current_vertex_index a"
    by (auto simp: update_global_shapekey_indices_def split: sum.splits)
  have svp: "\<And>v a b. set_vertex_position v a = Inr b \<Longrightarrow>
      total_vertices b = total_vertices a \<and> current_vertex_index b = current_vertex_index a"
    by (auto simp: set_vertex_position_def Let_def split: option.splits if_splits)
  have so: "\<And>a b. search_once a = Inr b \<Longrightarrow>
      total_vertices b = total_vertices a \<and> current_vertex_index b = current_vertex_index a"
    by (auto simp: search_once_def Let_def split: option.splits sum.splits if_splits)
  have uv: "\<And>a f b. update_vertex a = Inr (f, b) \<Longrightarrow>
      total_vertices b = total_vertices a \<and> current_vertex_index a \<le> current_vertex_index b"
    unfolding update_vertex_def
    by (auto simp: Let_def split: option.splits sum.splits if_splits dest!: svp so)
  have fk: "\<And>a f b. for_key_names l a = Inr (f, b) \<Longrightarrow>
      total_vertices b = total_vertices a \<and> current_vertex_index a \<le> current_vertex_index b"
  proof (induction l)
    case Nil
    then show ?case by simp
  next
    case (Cons k ks)
    from Cons.prems obtain a1 f2 a2 where
      1: "update_global_shapekey_indices k a = Inr a1" and
      2: "update_vertex a1 = Inr (f2, a2)" and
      3: "(f2 \<and> b = a2) \<or> (\<not> f2 \<and> for_key_names ks a2 = Inr (f, b))"
      by (auto split: sum.splits if_splits)
    from 3 Cons.IH [of a2 f b] have
      "total_vertices b = total_vertices a2 \<and> current_vertex_index a2 \<le> current_vertex_index b"
      by auto
    with ugsi [OF 1] uv [OF 2] show ?case by simp
  qed
  from 2 have "for_key_names l (s\<lparr>do_once_per_vertex := True\<rparr>) = Inr (abort, s1)"
    by simp
  from fk [OF this] 2(1) show ?case
    by (simp, arith)
qed

declare while_vertices.simps [simp del]

text \<open>
  Modelled from the spec: \<open>shape_key_add\<close> is the host's method that creates a shape
  key on an object; the repository only calls it.  The first key of a mesh takes the
  positions of the mesh's vertices; a later key starts with the positions of the basis
  key (the first key block).  The new key goes to the end of the key blocks.
\<close>

definition shape_key_add :: "string \<Rightarrow> Object \<Rightarrow> Object" where
  "shape_key_add nm ob =
     (case shape_keys ob of
        None \<Rightarrow> ob\<lparr>shape_keys := Some [\<lparr>name = nm, data = vertices ob\<rparr>]\<rparr>
      | Some kbs \<Rightarrow>
          ob\<lparr>shape_keys := Some (kbs @ [\<lparr>name = nm, data = (case kbs of [] \<Rightarrow> vertices ob
                                                             | b # _ \<Rightarrow> data b)\<rparr>])\<rparr>)"

text \<open>\<open>self.dest_mesh.shape_key_add(name=nm)\<close>.\<close>

definition dest_shape_key_add :: "string \<Rightarrow> ShapeKeyTransfer \<Rightarrow> py_error + ShapeKeyTransfer" where
  "dest_shape_key_add nm s =
     (case dest_mesh s of None \<Rightarrow> Inl AttributeError
      | Some d \<Rightarrow> Inr (s\<lparr>dest_mesh := Some (shape_key_add nm d)\<rparr>))"

text \<open>
  The body of the loop that adds the missing shape keys, for one key block of the source.
  The loop state is the object state and \<open>local_shape_key_list\<close>.
\<close>

definition add_and_list ::
  "string \<Rightarrow> ShapeKeyTransfer \<times> string list \<Rightarrow> py_error + ShapeKeyTransfer \<times> string list"
where
  "add_and_list nm st =
     (case dest_shape_key_add nm (fst st) of Inl e \<Rightarrow> Inl e
      | Inr s1 \<Rightarrow> Inr (s1, snd st @ [nm]))"

definition add_missing_step ::
  "ListUse \<Rightarrow> ShapeKey \<Rightarrow> ShapeKeyTransfer \<times> string list
     \<Rightarrow> py_error + ShapeKeyTransfer \<times> string list"
where
  "add_missing_step listUse src_shape_key_iter st =
     (case key_blocks (dest_mesh (fst st)) of Inl e \<Rightarrow> Inl e
      | Inr dkbs \<Rightarrow>
        (let nm = name src_shape_key_iter;
             insert_sk = fold (\<lambda>dest_shape_key_iter b.
                                 if nm = name dest_shape_key_iter then False else b) dkbs True;
             s = fst st
         in if insert_sk then
              (case (if listUse = use_include \<and> nm \<in> set (excluded_shape_keys s)
                        \<and> \<not> nm \<in> set (default_excluded_keys s)
                     then add_and_list nm st else Inr st) of
                 Inl e \<Rightarrow> Inl e
               | Inr st1 \<Rightarrow>
                   if listUse = use_exclude \<and> \<not> nm \<in> set (excluded_shape_keys s)
                      \<and> \<not> nm \<in> set (default_excluded_keys s)
                   then add_and_list nm st1
                   else if listUse = use_all \<and> \<not> nm \<in> set (default_excluded_keys s)
                   then add_and_list nm st1
                   else Inr st1)
            else Inr st))"

fun add_missing_shape_keys ::
  "ListUse \<Rightarrow> ShapeKey list \<Rightarrow> ShapeKeyTransfer \<times> string list
     \<Rightarrow> py_error + ShapeKeyTransfer \<times> string list"
where
  "add_missing_shape_keys listUse [] st = Inr st"
| "add_missing_shape_keys listUse (src_shape_key_iter # rest) st =
     (case add_missing_step listUse src_shape_key_iter st of Inl e \<Rightarrow> Inl e
      | Inr st1 \<Rightarrow> add_missing_shape_keys listUse rest st1)"

text \<open>
  \<open>transfer_shape_keys\<close>.  The arguments \<open>src_ob\<close> and \<open>dest_ob\<close> are what
  \<open>get_parent\<close> returns for the two meshes (\<open>None\<close> when no object owns the mesh);
  \<open>inverted\<close> is the matrix inversion of the host's library, \<open>None\<close> where it raises
  for a matrix without inverse; \<open>listUse\<close> is the scene property read by the method.
  The result is the return value and the object state.
\<close>

definition transfer_shape_keys ::
  "(Matrix \<Rightarrow> Matrix option) \<Rightarrow> ListUse \<Rightarrow> Object option \<Rightarrow> Object option \<Rightarrow> bool
     \<Rightarrow> ShapeKeyTransfer \<Rightarrow> py_error + bool \<times> ShapeKeyTransfer"
where
  "transfer_shape_keys inverted listUse src_ob dest_ob copy_only s0 =
     (let s1 = s0\<lparr>src_mesh := src_ob, dest_mesh := dest_ob\<rparr> in
      case src_mesh s1 of None \<Rightarrow> Inl AttributeError
      | Some src \<Rightarrow>
        (case inverted (matrix_world src) of None \<Rightarrow> Inl ValueError
         | Some mwi \<Rightarrow>
           (let s2 = s1\<lparr>src_mwi := Some mwi, current_vertex_index := 0\<rparr> in
            case dest_mesh s2 of
              None \<Rightarrow> Inr (False, s2\<lparr>message := ''The meshes are not valid!''\<rparr>)
            | Some dest \<Rightarrow>
              (let s3 = (if specify_end_vertex s2 = False
                         then s2\<lparr>total_vertices := length (vertices dest)\<rparr> else s2)
               in if shape_keys src = None
                  then Inr (False, s3\<lparr>message := ''There are no Shape Keys in the source mesh!''\<rparr>)
                  else
                    (case (if shape_keys dest = None then dest_shape_key_add ''Basis'' s3
                           else Inr s3) of
                       Inl e \<Rightarrow> Inl e
                     | Inr s4 \<Rightarrow>
                       (case key_blocks (src_mesh s4) of Inl e \<Rightarrow> Inl e
                        | Inr skbs \<Rightarrow>
                          (case add_missing_shape_keys listUse skbs (s4, []) of Inl e \<Rightarrow> Inl e
                           | Inr (s5, local_shape_key_list) \<Rightarrow>
                               if copy_only then Inr (True, s5\<lparr>message := ''Success''\<rparr>)
                               else while_vertices local_shape_key_list s5)))))))"

section \<open>Vocabulary for the properties of the transfer loop\<close>

text \<open>
  The search that \<open>update_vertex\<close> makes for destination vertex \<open>i\<close>: the world position
  of the vertex's basis position, and \<open>select_required_verts\<close> around it from radius 0.
\<close>

definition vertex_search :: "ShapeKeyTransfer \<Rightarrow> nat \<Rightarrow> py_error + nat list" where
  "vertex_search s i =
     (case dest_mesh s of None \<Rightarrow> Inl AttributeError
      | Some d \<Rightarrow>
        (case key_co (dest_mesh s) 0 i of Inl e \<Rightarrow> Inl e
         | Inr co \<Rightarrow> select_required_verts s (mat_vec (matrix_world d) co) 0 0))"

text \<open>
  The shape of the meshes the host guarantees while the loop runs: both objects and the
  inverse source transform are there, both meshes have key blocks, every source key has a
  position for each vertex of the source's basis key, every destination key has a position
  for each of the \<open>total_vertices\<close> vertices, and the two stored key indices are in range.
\<close>

definition consistent :: "ShapeKeyTransfer \<Rightarrow> bool" where
  "consistent s \<longleftrightarrow>
     (case (src_mesh s, dest_mesh s, src_mwi s) of
        (Some src, Some d, Some mwi) \<Rightarrow>
          (case (shape_keys src, shape_keys d) of
             (Some skbs, Some dkbs) \<Rightarrow>
               skbs \<noteq> [] \<and> dkbs \<noteq> [] \<and>
               list_all (\<lambda>sk. length (data (skbs ! 0)) \<le> length (data sk)) skbs \<and>
               list_all (\<lambda>dk. total_vertices s \<le> length (data dk)) dkbs \<and>
               src_shape_key_index s < length skbs \<and> dest_shape_key_index s < length dkbs
           | _ \<Rightarrow> False)
      | _ \<Rightarrow> False)"

text \<open>
  What the transfer loop never changes: the source, the configuration and the
  destination's world matrix; and, for \<open>keeps c\<close>, every destination position except
  those of vertex \<open>c\<close>.
\<close>

definition frame :: "ShapeKeyTransfer \<Rightarrow> ShapeKeyTransfer \<Rightarrow> bool" where
  "frame s s' \<longleftrightarrow>
     src_mesh s' = src_mesh s \<and> src_mwi s' = src_mwi s \<and>
     use_one_vertex s' = use_one_vertex s \<and> increment_radius s' = increment_radius s \<and>
     number_of_increments s' = number_of_increments s \<and>
     skip_vertices_with_no_pair s' = skip_vertices_with_no_pair s \<and>
     total_vertices s' = total_vertices s \<and>
     map_option matrix_world (dest_mesh s') = map_option matrix_world (dest_mesh s)"

definition keeps :: "nat \<Rightarrow> ShapeKeyTransfer \<Rightarrow> ShapeKeyTransfer \<Rightarrow> bool" where
  "keeps c s s' \<longleftrightarrow> frame s s' \<and>
     (\<forall>k j. j \<noteq> c \<longrightarrow> key_co (dest_mesh s') k j = key_co (dest_mesh s) k j)"

section \<open>Example scenes\<close>

text \<open>The state of a fresh \<open>ShapeKeyTransfer()\<close>, and the identity transform.\<close>

definition identity_matrix :: Matrix where
  "identity_matrix = Matrix (Row 1 0 0 0) (Row 0 1 0 0) (Row 0 0 1 0) (Row 0 0 0 1)"

definition skt_init :: ShapeKeyTransfer where
  "skt_init = \<lparr>increment_radius = 5 / 100, number_of_increments = 20,
      current_vertex_index = 0, total_vertices = 0, specify_end_vertex = False,
      use_one_vertex = True,
      default_excluded_keys = [''Basis'', ''basis'', ''Expressions_IDHumans_max''],
      excluded_shape_keys = [''Basis'', ''basis'', ''Expressions_IDHumans_max''],
      dest_mesh = None, src_mesh = None, src_mwi = None,
      dest_shape_key_index = 0, src_shape_key_index = 0, do_once_per_vertex = False,
      current_vertex = None, src_chosen_vertices = [], message = [],
      skip_vertices_with_no_pair = False\<rparr>"

text \<open>A source mesh with two vertices at distance 1 from the origin.\<close>

definition tie_object :: Object where
  "tie_object = \<lparr>matrix_world = identity_matrix, vertices = [Vector 1 0 0, Vector 0 1 0],
      shape_keys = Some [\<lparr>name = ''Basis'', data = [Vector 1 0 0, Vector 0 1 0]\<rparr>]\<rparr>"

definition tie_state :: ShapeKeyTransfer where
  "tie_state = skt_init\<lparr>src_mesh := Some tie_object, src_mwi := Some identity_matrix\<rparr>"




text \<open>
  A source mesh of two vertices with the keys \<open>Basis\<close> and \<open>Smile\<close>, and a destination
  mesh of three vertices with the key \<open>Basis\<close> only.  Destination vertices 0 and 2 lie on
  source vertices 0 and 1; destination vertex 1 is far from the source.
\<close>

definition face_src :: Object where
  "face_src = \<lparr>matrix_world = identity_matrix, vertices = [Vector 0 0 0, Vector 1 0 0],
      shape_keys = Some [\<lparr>name = ''Basis'', data = [Vector 0 0 0, Vector 1 0 0]\<rparr>,
                         \<lparr>name = ''Smile'', data = [Vector 0 0 1, Vector 1 0 2]\<rparr>]\<rparr>"

definition face_dest :: Object where
  "face_dest = \<lparr>matrix_world = identity_matrix,
      vertices = [Vector 0 0 0, Vector 100 0 0, Vector 1 0 0],
      shape_keys = Some [\<lparr>name = ''Basis'',
                          data = [Vector 0 0 0, Vector 100 0 0, Vector 1 0 0]\<rparr>]\<rparr>"

text \<open>The same destination after a key \<open>Smile\<close> has been created on it.\<close>

definition face_dest_smile :: Object where
  "face_dest_smile = \<lparr>matrix_world = identity_matrix,
      vertices = [Vector 0 0 0, Vector 100 0 0, Vector 1 0 0],
      shape_keys = Some [\<lparr>name = ''Basis'',
                          data = [Vector 0 0 0, Vector 100 0 0, Vector 1 0 0]\<rparr>,
                         \<lparr>name = ''Smile'',
                          data = [Vector 0 0 0, Vector 100 0 0, Vector 1 0 0]\<rparr>]\<rparr>"

text \<open>The state in which \<open>transfer_shape_keys\<close> starts to add the missing keys.\<close>

definition face_state :: ShapeKeyTransfer where
  "face_state = skt_init\<lparr>src_mesh := Some face_src, dest_mesh := Some face_dest,
      src_mwi := Some identity_matrix, total_vertices := 3,
      increment_radius := 1, number_of_increments := 1\<rparr>"

text \<open>The library's matrix inversion on the identity, the only transform of the examples.\<close>

definition inverted_identity :: "Matrix \<Rightarrow> Matrix option" where
  "inverted_identity m = (if m = identity_matrix then Some identity_matrix else None)"

text \<open>
  The state after the missing keys have been added; the state in which \<open>update_vertex\<close>
  is first called for vertex 0 and the key \<open>Smile\<close>; and a state with a cached search
  result of two source vertices.
\<close>

definition face_ready :: ShapeKeyTransfer where
  "face_ready = face_state\<lparr>dest_mesh := Some face_dest_smile\<rparr>"

definition face_vertex0 :: ShapeKeyTransfer where
  "face_vertex0 = face_ready\<lparr>do_once_per_vertex := True, dest_shape_key_index := 1,
      src_shape_key_index := 1\<rparr>"

definition face_pair :: ShapeKeyTransfer where
  "face_pair = face_vertex0\<lparr>do_once_per_vertex := False,
      current_vertex := Some (Vector 0 0 0), src_chosen_vertices := [0, 1]\<rparr>"

text \<open>The same state when unmatched vertices are skipped.\<close>

definition face_skip :: ShapeKeyTransfer where
  "face_skip = face_ready\<lparr>skip_vertices_with_no_pair := True\<rparr>"

text \<open>
  A source with three keys and a destination of two vertices that has them all; the last
  destination vertex is far from the source, and the vertex cursor stands on it.
\<close>

definition edge_src :: Object where
  "edge_src = \<lparr>matrix_world = identity_matrix, vertices = [Vector 0 0 0, Vector 1 0 0],
      shape_keys = Some [\<lparr>name = ''Basis'', data = [Vector 0 0 0, Vector 1 0 0]\<rparr>,
                         \<lparr>name = ''Smile'', data = [Vector 0 0 1, Vector 1 0 2]\<rparr>,
                         \<lparr>name = ''Frown'', data = [Vector 0 1 0, Vector 1 2 0]\<rparr>]\<rparr>"

definition edge_dest :: Object where
  "edge_dest = \<lparr>matrix_world = identity_matrix,
      vertices = [Vector 0 0 0, Vector 100 0 0],
      shape_keys = Some [\<lparr>name = ''Basis'', data = [Vector 0 0 0, Vector 100 0 0]\<rparr>,
                         \<lparr>name = ''Smile'', data = [Vector 0 0 0, Vector 100 0 0]\<rparr>,
                         \<lparr>name = ''Frown'', data = [Vector 0 0 0, Vector 100 0 0]\<rparr>]\<rparr>"

definition edge_state :: ShapeKeyTransfer where
  "edge_state = skt_init\<lparr>src_mesh := Some edge_src, dest_mesh := Some edge_dest,
      src_mwi := Some identity_matrix, total_vertices := 2, current_vertex_index := 1,
      increment_radius := 1, number_of_increments := 1,
      skip_vertices_with_no_pair := True\<rparr>"

section \<open>Properties of the vertex search\<close>

lemma enumerate_snoc: "enumerate n (xs @ [x]) = enumerate n xs @ [(n + length xs, x)]"
  by (simp add: enumerate_append_eq)

lemma select_scan_one:
  "fold (select_step True lco rlen) (enumerate 0 vs) ([], rlen, - 1) = (ch, cl, ci) \<Longrightarrow>
   (ci = - 1 \<and> cl = rlen \<and> (\<forall>j < length vs. \<not> vec_length (vec_sub (vs ! j) lco) \<le> rlen)) \<or>
   (0 \<le> ci \<and> nat ci < length vs \<and> cl = vec_length (vec_sub (vs ! nat ci) lco) \<and> cl \<le> rlen \<and>
    (\<forall>j < length vs. cl \<le> vec_length (vec_sub (vs ! j) lco)) \<and>
    (\<forall>j < length vs. vec_length (vec_sub (vs ! j) lco) = cl \<longrightarrow> j \<le> nat ci))"
proof (induction vs arbitrary: ch cl ci rule: rev_induct)
  case Nil
  then show ?case by simp
next
  case (snoc x xs)
  obtain ch0 cl0 ci0 where st: "fold (select_step True lco rlen) (enumerate 0 xs) ([], rlen, - 1) = (ch0, cl0, ci0)"
    by (metis prod_cases3)
  note IH = snoc.IH [OF st]
  from snoc.prems st have step: "select_step True lco rlen (length xs, x) (ch0, cl0, ci0) = (ch, cl, ci)"
    by (simp add: enumerate_snoc)
  show ?case
  proof (cases "vec_length (vec_sub x lco) \<le> rlen \<and> vec_length (vec_sub x lco) \<le> cl0")
    case True
    with step have e: "cl = vec_length (vec_sub x lco)" "ci = int (length xs)" by auto
    have "\<forall>j < length (xs @ [x]). cl \<le> vec_length (vec_sub ((xs @ [x]) ! j) lco)"
      using IH True e by (auto simp: nth_append less_Suc_eq)
    then show ?thesis using True e by (auto simp: nth_append)
  next
    case False
    with step have e: "cl = cl0" "ci = ci0" by (auto split: if_splits)
    from False IH have "ci0 = - 1 \<Longrightarrow> \<not> vec_length (vec_sub x lco) \<le> rlen" by auto
    moreover from False IH have "0 \<le> ci0 \<Longrightarrow> cl0 < vec_length (vec_sub x lco)" by auto
    ultimately show ?thesis using IH e
      by (auto simp: nth_append less_Suc_eq)
  qed
qed

text \<open>
  C1 (as amended).  With \<open>use_one_vertex\<close> set and at least one source vertex within the
  radius, \<open>select_vertices\<close> returns exactly one index \<open>k\<close>; no vertex is closer to the
  centre (in the source's local space) than vertex \<open>k\<close>, and every vertex at exactly the
  same distance has an index \<open>\<le> k\<close>: on a tie the highest index, the one met last in
  the scan, is returned.
\<close>

theorem select_vertices_tie_last:
  assumes "use_one_vertex s" and "src_mwi s = Some mwi" and "key_data (src_mesh s) 0 = Inr vs"
    and "j < length vs"
    and "vec_length (vec_sub (vs ! j) (mat_vec mwi center))
           \<le> vec_length (vec_sub (mat_vec mwi (vec_add center (Vector 0 0 radius))) (mat_vec mwi center))"
  shows "\<exists>k. select_vertices s center radius = Inr [k] \<and> k < length vs \<and>
           (\<forall>i < length vs. vec_length (vec_sub (vs ! k) (mat_vec mwi center))
                              \<le> vec_length (vec_sub (vs ! i) (mat_vec mwi center))) \<and>
           (\<forall>i < length vs. vec_length (vec_sub (vs ! i) (mat_vec mwi center))
                              = vec_length (vec_sub (vs ! k) (mat_vec mwi center)) \<longrightarrow> i \<le> k)"
proof -
  let ?lco = "mat_vec mwi center"
  let ?rlen = "vec_length (vec_sub (mat_vec mwi (vec_add center (Vector 0 0 radius))) ?lco)"
  obtain ch cl ci where st:
    "fold (select_step True ?lco ?rlen) (enumerate 0 vs) ([], ?rlen, - 1) = (ch, cl, ci)"
    by (metis prod_cases3)
  from select_scan_one [OF st] assms(4,5)
  have inv: "0 \<le> ci" "nat ci < length vs" "cl = vec_length (vec_sub (vs ! nat ci) ?lco)"
    "\<forall>j < length vs. cl \<le> vec_length (vec_sub (vs ! j) ?lco)"
    "\<forall>j < length vs. vec_length (vec_sub (vs ! j) ?lco) = cl \<longrightarrow> j \<le> nat ci"
    by auto
  from assms(1-3) st inv(1) have "select_vertices s center radius = Inr [nat ci]"
    by (simp add: select_vertices_def Let_def)
  with inv show ?thesis by auto
qed

theorem select_vertices_tie_last_witness:
  "use_one_vertex tie_state \<and> src_mwi tie_state = Some identity_matrix \<and>
   key_data (src_mesh tie_state) 0 = Inr [Vector 1 0 0, Vector 0 1 0] \<and>
   (\<exists>k. select_vertices tie_state (Vector 0 0 0) 1 = Inr [k] \<and>
        (\<forall>i < 2. vec_length (vec_sub ([Vector 1 0 0, Vector 0 1 0] ! i) (Vector 0 0 0))
                  = vec_length (vec_sub ([Vector 1 0 0, Vector 0 1 0] ! k) (Vector 0 0 0))
                   \<longrightarrow> i \<le> k))"
proof -
  have h1: "use_one_vertex tie_state"
    by (simp add: tie_state_def skt_init_def)
  have h2: "src_mwi tie_state = Some identity_matrix"
    by (simp add: tie_state_def skt_init_def)
  have h3: "key_data (src_mesh tie_state) 0 = Inr [Vector 1 0 0, Vector 0 1 0]"
    by (simp add: tie_state_def tie_object_def key_data_def key_blocks_def item_def)
  have h4: "(0::nat) < length [Vector 1 0 0, Vector 0 1 0]"
    by simp
  have h5: "vec_length (vec_sub ([Vector 1 0 0, Vector 0 1 0] ! 0) (mat_vec identity_matrix (Vector 0 0 0)))
      \<le> vec_length (vec_sub (mat_vec identity_matrix (vec_add (Vector 0 0 0) (Vector 0 0 1)))
            (mat_vec identity_matrix (Vector 0 0 0)))"
    by (simp add: identity_matrix_def)
  have c: "mat_vec identity_matrix (Vector 0 0 0) = Vector 0 0 0"
    by (simp add: identity_matrix_def)
  from select_vertices_tie_last [OF h1 h2 h3 h4 h5] h1 h2 h3 show ?thesis
    unfolding c by auto
qed

text \<open>
  C1 as the specification states it ("the lowest vertex index wins on exact ties")
  fails: vertices 0 and 1 are both at distance 1 from the centre, within the radius 1,
  and the search returns vertex 1.
\<close>

theorem tie_first_counterexample:
  "use_one_vertex tie_state \<and>
   key_data (src_mesh tie_state) 0 = Inr [Vector 1 0 0, Vector 0 1 0] \<and>
   src_mwi tie_state = Some identity_matrix \<and>
   mat_vec identity_matrix (Vector 0 0 0) = Vector 0 0 0 \<and>
   vec_length (vec_sub (Vector 1 0 0) (Vector 0 0 0)) = 1 \<and>
   vec_length (vec_sub (Vector 0 1 0) (Vector 0 0 0)) = 1 \<and>
   select_vertices tie_state (Vector 0 0 0) 1 = Inr [1] \<and>
   select_vertices tie_state (Vector 0 0 0) 1 \<noteq> Inr [0]"
  by (simp add: tie_state_def tie_object_def skt_init_def identity_matrix_def
      select_vertices_def key_data_def key_blocks_def item_def Let_def)

lemma select_vertices_cong:
  assumes "src_mwi s' = src_mwi s" and "use_one_vertex s' = use_one_vertex s"
    and "key_data (src_mesh s') 0 = key_data (src_mesh s) 0"
  shows "select_vertices s' center radius = select_vertices s center radius"
  unfolding select_vertices_def assms ..

lemma select_required_verts_cong:
  assumes "src_mwi s' = src_mwi s" and "use_one_vertex s' = use_one_vertex s"
    and "key_data (src_mesh s') 0 = key_data (src_mesh s) 0"
    and "increment_radius s' = increment_radius s"
    and "number_of_increments s' = number_of_increments s"
  shows "select_required_verts s' vert rad level = select_required_verts s vert rad level"
  using assms
proof (induction s vert rad level rule: select_required_verts.induct)
  case (1 s vert rad level)
  have sv: "select_vertices s' vert rad = select_vertices s vert rad"
    using "1.prems" by (rule_tac select_vertices_cong) simp_all
  show ?case
  proof (cases "level > number_of_increments s")
    case True
    with "1.prems" show ?thesis
      by (simp add: select_required_verts.simps [of s'] select_required_verts.simps [of s])
  next
    case False
    show ?thesis
    proof (cases "select_vertices s vert rad")
      case (Inl e)
      with False sv "1.prems" show ?thesis
        by (simp add: select_required_verts.simps [of s'] select_required_verts.simps [of s])
    next
      case (Inr verts)
      show ?thesis
      proof (cases "length verts = 0")
        case True
        from "1.IH" [OF False Inr True] "1.prems"
        have "select_required_verts s' vert (rad + increment_radius s) (level + 1)
            = select_required_verts s vert (rad + increment_radius s) (level + 1)"
          by simp
        with False sv Inr True "1.prems" show ?thesis
          by (simp add: select_required_verts.simps [of s' vert rad]
              select_required_verts.simps [of s vert rad])
      next
        case F: False
        with False sv Inr "1.prems" show ?thesis
          by (simp add: select_required_verts.simps [of s' vert rad]
              select_required_verts.simps [of s vert rad])
      qed
    qed
  qed
qed

lemma search_once_meshes:
  "search_once s = Inr s1 \<Longrightarrow> src_mesh s1 = src_mesh s \<and> dest_mesh s1 = dest_mesh s"
  by (auto simp: search_once_def Let_def split: if_splits option.splits sum.splits)

text \<open>
  C9.  The search is a function of the source snapshot and the configuration: two states
  of the object that agree on the inverse source transform, on the basis positions of the
  source, on \<open>use_one_vertex\<close>, \<open>increment_radius\<close> and \<open>number_of_increments\<close> give the
  same result from \<open>select_vertices\<close> and from \<open>select_required_verts\<close>, whatever the
  rest of the state (the destination mesh among it) is.  The two search functions return an
  index list and no state; the block of \<open>update_vertex\<close> that runs the search and stores
  its result leaves the source and the destination mesh as they were.
\<close>

theorem search_deterministic_frame:
  assumes "src_mwi s' = src_mwi s" and "use_one_vertex s' = use_one_vertex s"
    and "key_data (src_mesh s') 0 = key_data (src_mesh s) 0"
    and "increment_radius s' = increment_radius s"
    and "number_of_increments s' = number_of_increments s"
  shows "select_vertices s' center radius = select_vertices s center radius \<and>
         select_required_verts s' vert rad level = select_required_verts s vert rad level \<and>
         (\<forall>s1. search_once s = Inr s1 \<longrightarrow> src_mesh s1 = src_mesh s \<and> dest_mesh s1 = dest_mesh s)"
  using select_vertices_cong [OF assms(1-3)] select_required_verts_cong [OF assms]
    search_once_meshes by blast

theorem search_deterministic_frame_witness:
  "select_vertices (tie_state\<lparr>dest_mesh := Some tie_object, message := ''x''\<rparr>) (Vector 0 0 0) 1
     = select_vertices tie_state (Vector 0 0 0) 1 \<and>
   select_required_verts (tie_state\<lparr>dest_mesh := Some tie_object, message := ''x''\<rparr>)
       (Vector 0 0 0) 0 0
     = select_required_verts tie_state (Vector 0 0 0) 0 0"
  using search_deterministic_frame
    [of "tie_state\<lparr>dest_mesh := Some tie_object, message := ''x''\<rparr>" tie_state
        "Vector 0 0 0" 1 "Vector 0 0 0" 0 0]
  by simp

lemma select_vertices_returns:
  assumes "src_mwi s = Some mwi" and "key_data (src_mesh s) 0 = Inr vs"
  shows "\<exists>verts. select_vertices s center radius = Inr verts"
  using assms by (simp add: select_vertices_def Let_def split: prod.splits)










section \<open>Properties of the provisioning loop\<close>

lemma insert_sk_fold:
  "fold (\<lambda>d b. if nm = name d then False else b) dkbs b0 = (b0 \<and> nm \<notin> name ` set dkbs)"
  by (induction dkbs arbitrary: b0) auto

lemma key_blocks_shape_key_add:
  "key_blocks (Some d) = Inr dkbs \<Longrightarrow>
   \<exists>sk. key_blocks (Some (shape_key_add nm d)) = Inr (dkbs @ [sk]) \<and> name sk = nm \<and>
        data sk = (case dkbs of [] \<Rightarrow> vertices d | b # _ \<Rightarrow> data b)"
  by (auto simp: key_blocks_def shape_key_add_def split: option.splits)

lemma add_and_list_result:
  assumes "add_and_list nm (s, wl) = Inr (s', wl')" and "key_blocks (dest_mesh s) = Inr dkbs"
  shows "\<exists>d sk. dest_mesh s = Some d \<and> s' = s\<lparr>dest_mesh := Some (shape_key_add nm d)\<rparr> \<and>
           key_blocks (dest_mesh s') = Inr (dkbs @ [sk]) \<and> name sk = nm \<and> wl' = wl @ [nm] \<and>
           data sk = (case dkbs of [] \<Rightarrow> vertices d | b # _ \<Rightarrow> data b)"
proof -
  from assms(1) obtain d where d: "dest_mesh s = Some d"
    and s': "s' = s\<lparr>dest_mesh := Some (shape_key_add nm d)\<rparr>" and wl': "wl' = wl @ [nm]"
    by (auto simp: add_and_list_def dest_shape_key_add_def split: option.splits sum.splits)
  from assms(2) d key_blocks_shape_key_add [of d dkbs nm] s' wl' show ?thesis
    by auto
qed

lemma add_missing_step_eq:
  assumes "key_blocks (dest_mesh (fst st)) = Inr dkbs"
  shows "add_missing_step lu k st =
     (if name k \<notin> name ` set dkbs \<and> name k \<notin> set (default_excluded_keys (fst st)) \<and>
         (lu = use_all \<or>
          (lu = use_include \<and> name k \<in> set (excluded_shape_keys (fst st))) \<or>
          (lu = use_exclude \<and> name k \<notin> set (excluded_shape_keys (fst st))))
      then add_and_list (name k) st else Inr st)"
  using assms
  by (cases lu) (auto simp: add_missing_step_def insert_sk_fold Let_def split: sum.splits)

lemma add_missing_step_result:
  assumes "add_missing_step lu k (s, wl) = Inr (s', wl')"
    and "key_blocks (dest_mesh s) = Inr dkbs"
  shows "(s' = s \<and> wl' = wl) \<or>
         (name k \<notin> name ` set dkbs \<and>
          (\<exists>d sk. dest_mesh s = Some d \<and> s' = s\<lparr>dest_mesh := Some (shape_key_add (name k) d)\<rparr> \<and>
             key_blocks (dest_mesh s') = Inr (dkbs @ [sk]) \<and> name sk = name k \<and>
             wl' = wl @ [name k] \<and>
             data sk = (case dkbs of [] \<Rightarrow> vertices d | b # _ \<Rightarrow> data b)))"
proof -
  from assms(2) have kb: "key_blocks (dest_mesh (fst (s, wl))) = Inr dkbs" by simp
  show ?thesis
  proof (cases "add_missing_step lu k (s, wl) = Inr (s, wl)")
    case True
    with assms(1) show ?thesis by simp
  next
    case False
    with add_missing_step_eq [OF kb, of lu k] assms(1)
    have "name k \<notin> name ` set dkbs" and "add_and_list (name k) (s, wl) = Inr (s', wl')"
      by (auto split: if_splits)
    with add_and_list_result [OF this(2) assms(2)] show ?thesis by blast
  qed
qed


lemma add_and_list_returns:
  "dest_mesh (fst st) = Some d \<Longrightarrow> \<exists>st'. add_and_list nm st = Inr st'"
  by (simp add: add_and_list_def dest_shape_key_add_def)

lemma add_missing_step_returns:
  assumes "key_blocks (dest_mesh s) = Inr dkbs"
  shows "\<exists>s' wl'. add_missing_step lu k (s, wl) = Inr (s', wl')"
proof -
  from assms obtain d where d: "dest_mesh (fst (s, wl)) = Some d"
    by (auto simp: key_blocks_def split: option.splits)
  from assms have kb: "key_blocks (dest_mesh (fst (s, wl))) = Inr dkbs" by simp
  from add_and_list_returns [OF d, of "name k"] show ?thesis
    unfolding add_missing_step_eq [OF kb] by (cases "add_and_list (name k) (s, wl)") auto
qed

lemma add_missing_shape_keys_result:
  assumes "key_blocks (dest_mesh s) = Inr dkbs"
  shows "\<exists>s' wl' new d'. add_missing_shape_keys lu skbs (s, wl) = Inr (s', wl') \<and>
           s' = s\<lparr>dest_mesh := d'\<rparr> \<and>
           key_blocks (dest_mesh s') = Inr (dkbs @ new) \<and> wl' = wl @ map name new \<and>
           distinct (map name new) \<and> name ` set new \<inter> name ` set dkbs = {} \<and>
           name ` set new \<subseteq> name ` set skbs \<and>
           (lu = use_all \<longrightarrow> (\<forall>k \<in> set skbs. name k \<notin> name ` set dkbs \<and>
               name k \<notin> set (default_excluded_keys s) \<longrightarrow> name k \<in> name ` set new))"
  using assms
proof (induction skbs arbitrary: s wl dkbs)
  case Nil
  have "s = s\<lparr>dest_mesh := dest_mesh s\<rparr>" by simp
  with Nil show ?case
    by (intro exI [of _ s] exI [of _ wl] exI [of _ "[]"] exI [of _ "dest_mesh s"]) simp
next
  case (Cons k ks)
  from add_missing_step_returns [OF Cons.prems, of lu k wl] obtain s1 wl1 where
    step: "add_missing_step lu k (s, wl) = Inr (s1, wl1)" by blast
  from Cons.prems have kb: "key_blocks (dest_mesh (fst (s, wl))) = Inr dkbs" by simp
  from add_missing_step_result [OF step Cons.prems]
  consider (same) "s1 = s" "wl1 = wl"
    | (added) d sk where "name k \<notin> name ` set dkbs" "dest_mesh s = Some d"
        "s1 = s\<lparr>dest_mesh := Some (shape_key_add (name k) d)\<rparr>"
        "key_blocks (dest_mesh s1) = Inr (dkbs @ [sk])" "name sk = name k"
        "wl1 = wl @ [name k]"
    by blast
  then show ?case
  proof cases
    case same
    from Cons.IH [OF Cons.prems, of wl] obtain s' wl' new d' where
      r1: "add_missing_shape_keys lu ks (s, wl) = Inr (s', wl')" and r2: "s' = s\<lparr>dest_mesh := d'\<rparr>"
      and r3: "key_blocks (dest_mesh s') = Inr (dkbs @ new)" and r4: "wl' = wl @ map name new"
      and r5: "distinct (map name new)" and r6: "name ` set new \<inter> name ` set dkbs = {}"
      and r7: "name ` set new \<subseteq> name ` set ks"
      and r8: "lu = use_all \<longrightarrow> (\<forall>k \<in> set ks. name k \<notin> name ` set dkbs \<and>
               name k \<notin> set (default_excluded_keys s) \<longrightarrow> name k \<in> name ` set new)"
      by (elim exE conjE)
    have notadd: "\<not> (lu = use_all \<and> name k \<notin> name ` set dkbs \<and>
        name k \<notin> set (default_excluded_keys s))"
    proof
      assume a: "lu = use_all \<and> name k \<notin> name ` set dkbs \<and>
        name k \<notin> set (default_excluded_keys s)"
      with step same add_missing_step_eq [OF kb, of lu k]
      have "add_and_list (name k) (s, wl) = Inr (s, wl)" by simp
      then show False
        by (auto simp: add_and_list_def split: sum.splits)
    qed
    have c1: "add_missing_shape_keys lu (k # ks) (s, wl) = Inr (s', wl')"
      using step same r1 by simp
    have c7: "name ` set new \<subseteq> name ` set (k # ks)"
      using r7 by auto
    have c8: "lu = use_all \<longrightarrow> (\<forall>k \<in> set (k # ks). name k \<notin> name ` set dkbs \<and>
               name k \<notin> set (default_excluded_keys s) \<longrightarrow> name k \<in> name ` set new)"
      using r8 notadd by auto
    show ?thesis
      by (intro exI [of _ s'] exI [of _ wl'] exI [of _ new] exI [of _ d'] conjI)
         (rule c1 r2 r3 r4 r5 r6 c7 c8)+
  next
    case added
    from Cons.IH [OF added(4), of wl1] obtain s' wl' new d' where
      r1: "add_missing_shape_keys lu ks (s1, wl1) = Inr (s', wl')" and r2: "s' = s1\<lparr>dest_mesh := d'\<rparr>"
      and r3: "key_blocks (dest_mesh s') = Inr ((dkbs @ [sk]) @ new)" and r4: "wl' = wl1 @ map name new"
      and r5: "distinct (map name new)" and r6: "name ` set new \<inter> name ` set (dkbs @ [sk]) = {}"
      and r7: "name ` set new \<subseteq> name ` set ks"
      and r8: "lu = use_all \<longrightarrow> (\<forall>k \<in> set ks. name k \<notin> name ` set (dkbs @ [sk]) \<and>
               name k \<notin> set (default_excluded_keys s1) \<longrightarrow> name k \<in> name ` set new)"
      by (elim exE conjE)
    have c1: "add_missing_shape_keys lu (k # ks) (s, wl) = Inr (s', wl')"
      using step r1 by simp
    from r2 added(3) have c2: "s' = s\<lparr>dest_mesh := d'\<rparr>" by simp
    from r3 have c3: "key_blocks (dest_mesh s') = Inr (dkbs @ (sk # new))" by simp
    from r4 added(5,6) have c4: "wl' = wl @ map name (sk # new)" by simp
    from added(3) have de: "default_excluded_keys s1 = default_excluded_keys s" by simp
    from r5 r6 added(5) have c5: "distinct (map name (sk # new))" by auto
    from r6 added(1,5) have c6: "name ` set (sk # new) \<inter> name ` set dkbs = {}" by auto
    from r7 added(5) have c7: "name ` set (sk # new) \<subseteq> name ` set (k # ks)" by auto
    have c8: "lu = use_all \<longrightarrow> (\<forall>k' \<in> set (k # ks). name k' \<notin> name ` set dkbs \<and>
               name k' \<notin> set (default_excluded_keys s) \<longrightarrow> name k' \<in> name ` set (sk # new))"
      using r8 added(5) unfolding de by auto
    show ?thesis
      by (intro exI [of _ s'] exI [of _ wl'] exI [of _ "sk # new"] exI [of _ d'] conjI)
         (rule c1 c2 c3 c4 c5 c6 c7 c8)+
  qed
qed


lemma count_list_distinct: "distinct xs \<Longrightarrow> x \<in> set xs \<Longrightarrow> count_list xs x = 1"
  by (induction xs) (auto simp: count_list_0_iff)

lemma provision_all_counts:
  assumes "key_blocks (dest_mesh s) = Inr dkbs"
  shows "\<exists>s' wl dkbs'. add_missing_shape_keys use_all skbs (s, []) = Inr (s', wl) \<and>
           key_blocks (dest_mesh s') = Inr dkbs' \<and>
           (\<forall>k \<in> name ` set skbs. k \<notin> name ` set dkbs \<and> k \<notin> set (default_excluded_keys s)
                \<longrightarrow> count_list (map name dkbs') k = 1) \<and>
           (\<forall>k \<in> name ` set dkbs. count_list (map name dkbs') k = count_list (map name dkbs) k)"
proof -
  from add_missing_shape_keys_result [OF assms(1), of use_all skbs "[]"] obtain s' wl' new d' where
    r1: "add_missing_shape_keys use_all skbs (s, []) = Inr (s', wl')"
    and r2: "s' = s\<lparr>dest_mesh := d'\<rparr>"
    and r3: "key_blocks (dest_mesh s') = Inr (dkbs @ new)"
    and r5: "distinct (map name new)"
    and r6: "name ` set new \<inter> name ` set dkbs = {}"
    and r8: "use_all = use_all \<longrightarrow> (\<forall>k \<in> set skbs. name k \<notin> name ` set dkbs \<and>
               name k \<notin> set (default_excluded_keys s) \<longrightarrow> name k \<in> name ` set new)"
    by (elim exE conjE)
  have a: "\<forall>k \<in> name ` set skbs. k \<notin> name ` set dkbs \<and> k \<notin> set (default_excluded_keys s)
                \<longrightarrow> count_list (map name (dkbs @ new)) k = 1"
  proof (intro ballI impI)
    fix k assume k: "k \<in> name ` set skbs"
      "k \<notin> name ` set dkbs \<and> k \<notin> set (default_excluded_keys s)"
    with r8 have "k \<in> set (map name new)" by auto
    with r5 have "count_list (map name new) k = 1" by (rule_tac count_list_distinct)
    moreover from k have "count_list (map name dkbs) k = 0" by (simp add: count_list_0_iff)
    ultimately show "count_list (map name (dkbs @ new)) k = 1" by simp
  qed
  have b: "\<forall>k \<in> name ` set dkbs. count_list (map name (dkbs @ new)) k = count_list (map name dkbs) k"
  proof
    fix k assume "k \<in> name ` set dkbs"
    with r6 have "k \<notin> set (map name new)" by auto
    then have "count_list (map name new) k = 0" by (simp add: count_list_0_iff)
    then show "count_list (map name (dkbs @ new)) k = count_list (map name dkbs) k" by simp
  qed
  from r1 r3 a b show ?thesis by blast
qed

lemma face_scenario:
  "add_missing_shape_keys use_all
        [\<lparr>name = ''Basis'', data = [Vector 0 0 0, Vector 1 0 0]\<rparr>,
         \<lparr>name = ''Smile'', data = [Vector 0 0 1, Vector 1 0 2]\<rparr>] (face_state, [])
     = Inr (face_state\<lparr>dest_mesh := Some face_dest_smile\<rparr>, [''Smile''])"
  by (simp add: key_blocks_def face_state_def face_dest_def face_dest_smile_def skt_init_def
      add_missing_step_def add_and_list_def dest_shape_key_add_def shape_key_add_def Let_def)

lemma face_copy_only:
  "transfer_shape_keys inverted_identity use_all (Some face_src) (Some face_dest) True skt_init
     = Inr (True, skt_init\<lparr>src_mesh := Some face_src, dest_mesh := Some face_dest_smile,
              src_mwi := Some identity_matrix, total_vertices := 3, message := ''Success''\<rparr>)"
  by (simp add: transfer_shape_keys_def inverted_identity_def key_blocks_def face_src_def
      face_dest_def face_dest_smile_def skt_init_def
      add_missing_step_def add_and_list_def dest_shape_key_add_def shape_key_add_def Let_def)


text \<open>
  C2 (as amended).  A name that is already a key of the destination when the loop starts
  is not created again and is not put into the work list, whatever the inclusion mode:
  the loop only appends new key blocks to the destination, and the work list holds
  exactly the names of the key blocks this call created, in the order of creation.  The
  transfer loop therefore never writes to a key that existed before the call.
\<close>

theorem provision_skips_existing:
  assumes "key_blocks (dest_mesh s) = Inr dkbs" and "nm \<in> name ` set dkbs"
  shows "\<exists>s' wl new. add_missing_shape_keys lu skbs (s, []) = Inr (s', wl) \<and>
           key_blocks (dest_mesh s') = Inr (dkbs @ new) \<and> wl = map name new \<and>
           nm \<notin> set wl"
proof -
  from add_missing_shape_keys_result [OF assms(1), of lu skbs "[]"] obtain s' wl' new d' where
    r1: "add_missing_shape_keys lu skbs (s, []) = Inr (s', wl')" and r2: "s' = s\<lparr>dest_mesh := d'\<rparr>"
    and r3: "key_blocks (dest_mesh s') = Inr (dkbs @ new)" and r4: "wl' = [] @ map name new"
    and r6: "name ` set new \<inter> name ` set dkbs = {}"
    by (elim exE conjE)
  from r4 r6 assms(2) have "nm \<notin> set wl'" by auto
  with r1 r3 r4 show ?thesis by simp
qed

theorem provision_skips_existing_witness:
  "key_blocks (dest_mesh (face_state\<lparr>dest_mesh := Some face_dest_smile\<rparr>))
     = Inr [\<lparr>name = ''Basis'', data = [Vector 0 0 0, Vector 100 0 0, Vector 1 0 0]\<rparr>,
            \<lparr>name = ''Smile'', data = [Vector 0 0 0, Vector 100 0 0, Vector 1 0 0]\<rparr>] \<and>
   (\<exists>s' wl. add_missing_shape_keys use_all
        [\<lparr>name = ''Basis'', data = [Vector 0 0 0, Vector 1 0 0]\<rparr>,
         \<lparr>name = ''Smile'', data = [Vector 0 0 1, Vector 1 0 2]\<rparr>]
        (face_state\<lparr>dest_mesh := Some face_dest_smile\<rparr>, []) = Inr (s', wl) \<and>
      ''Smile'' \<notin> set wl)"
proof -
  have h1: "key_blocks (dest_mesh (face_state\<lparr>dest_mesh := Some face_dest_smile\<rparr>))
     = Inr [\<lparr>name = ''Basis'', data = [Vector 0 0 0, Vector 100 0 0, Vector 1 0 0]\<rparr>,
            \<lparr>name = ''Smile'', data = [Vector 0 0 0, Vector 100 0 0, Vector 1 0 0]\<rparr>]"
    by (simp add: key_blocks_def face_dest_smile_def)
  have h2: "''Smile'' \<in> name ` set
          [\<lparr>name = ''Basis'', data = [Vector 0 0 0, Vector 100 0 0, Vector 1 0 0]\<rparr>,
            \<lparr>name = ''Smile'', data = [Vector 0 0 0, Vector 100 0 0, Vector 1 0 0]\<rparr>]"
    by simp
  from provision_skips_existing [OF h1 h2] h1 show ?thesis by blast
qed

text \<open>
  C2 as the specification states it fails: \<open>Smile\<close> is a key of the source, exists on
  the destination and passes the inclusion policy of mode \<^verbatim>\<open>all\<close>, and the work
  list comes out empty.
\<close>

theorem existing_key_in_worklist_counterexample:
  "key_blocks (src_mesh face_state)
     = Inr [\<lparr>name = ''Basis'', data = [Vector 0 0 0, Vector 1 0 0]\<rparr>,
            \<lparr>name = ''Smile'', data = [Vector 0 0 1, Vector 1 0 2]\<rparr>] \<and>
   key_blocks (Some face_dest_smile)
     = Inr [\<lparr>name = ''Basis'', data = [Vector 0 0 0, Vector 100 0 0, Vector 1 0 0]\<rparr>,
            \<lparr>name = ''Smile'', data = [Vector 0 0 0, Vector 100 0 0, Vector 1 0 0]\<rparr>] \<and>
   ''Smile'' \<notin> set (default_excluded_keys face_state) \<and>
   add_missing_shape_keys use_all
        [\<lparr>name = ''Basis'', data = [Vector 0 0 0, Vector 1 0 0]\<rparr>,
         \<lparr>name = ''Smile'', data = [Vector 0 0 1, Vector 1 0 2]\<rparr>]
        (face_state\<lparr>dest_mesh := Some face_dest_smile\<rparr>, [])
     = Inr (face_state\<lparr>dest_mesh := Some face_dest_smile\<rparr>, [])"
  by (simp add: key_blocks_def face_state_def face_src_def face_dest_smile_def skt_init_def
      add_missing_step_def Let_def)

text \<open>
  C3.  In mode \<^verbatim>\<open>all\<close> the loop returns without an exception; afterwards every name
  of a source key that was not on the destination before and is not in
  \<open>default_excluded_keys\<close> occurs exactly once among the destination's keys, and every
  name that was on the destination before occurs as often as before.  For the source keys
  \<open>Basis\<close>, \<open>Smile\<close> and the destination key \<open>Basis\<close>, with \<open>Basis\<close> excluded by
  default, the work list is \<open>[Smile]\<close> and the destination ends with the keys \<open>Basis\<close>,
  \<open>Smile\<close>.
\<close>

theorem provision_all_once:
  "(\<forall>s dkbs skbs. key_blocks (dest_mesh s) = Inr dkbs \<longrightarrow>
      (\<exists>s' wl dkbs'. add_missing_shape_keys use_all skbs (s, []) = Inr (s', wl) \<and>
           key_blocks (dest_mesh s') = Inr dkbs' \<and>
           (\<forall>k \<in> name ` set skbs. k \<notin> name ` set dkbs \<and> k \<notin> set (default_excluded_keys s)
                \<longrightarrow> count_list (map name dkbs') k = 1) \<and>
           (\<forall>k \<in> name ` set dkbs.
                count_list (map name dkbs') k = count_list (map name dkbs) k))) \<and>
   (\<exists>skbs dkbs. key_blocks (src_mesh face_state) = Inr skbs \<and>
        map name skbs = [''Basis'', ''Smile''] \<and>
        key_blocks (dest_mesh face_state) = Inr dkbs \<and> map name dkbs = [''Basis''] \<and>
        ''Basis'' \<in> set (default_excluded_keys face_state) \<and>
        (\<exists>s' dkbs'. add_missing_shape_keys use_all skbs (face_state, []) = Inr (s', [''Smile'']) \<and>
             key_blocks (dest_mesh s') = Inr dkbs' \<and>
             map name dkbs' = [''Basis'', ''Smile'']))"
proof (intro conjI allI impI)
  fix s :: ShapeKeyTransfer and dkbs skbs :: "ShapeKey list"
  assume "key_blocks (dest_mesh s) = Inr dkbs"
  then show "\<exists>s' wl dkbs'. add_missing_shape_keys use_all skbs (s, []) = Inr (s', wl) \<and>
           key_blocks (dest_mesh s') = Inr dkbs' \<and>
           (\<forall>k \<in> name ` set skbs. k \<notin> name ` set dkbs \<and> k \<notin> set (default_excluded_keys s)
                \<longrightarrow> count_list (map name dkbs') k = 1) \<and>
           (\<forall>k \<in> name ` set dkbs.
                count_list (map name dkbs') k = count_list (map name dkbs) k)"
    by (rule provision_all_counts)
next
  have 1: "key_blocks (src_mesh face_state)
      = Inr [\<lparr>name = ''Basis'', data = [Vector 0 0 0, Vector 1 0 0]\<rparr>,
             \<lparr>name = ''Smile'', data = [Vector 0 0 1, Vector 1 0 2]\<rparr>]"
    by (simp add: key_blocks_def face_state_def face_src_def)
  have 2: "key_blocks (dest_mesh face_state)
      = Inr [\<lparr>name = ''Basis'', data = [Vector 0 0 0, Vector 100 0 0, Vector 1 0 0]\<rparr>]"
    by (simp add: key_blocks_def face_state_def face_dest_def)
  have 3: "''Basis'' \<in> set (default_excluded_keys face_state)"
    by (simp add: face_state_def skt_init_def)
  have 4: "key_blocks (dest_mesh (face_state\<lparr>dest_mesh := Some face_dest_smile\<rparr>))
      = Inr [\<lparr>name = ''Basis'', data = [Vector 0 0 0, Vector 100 0 0, Vector 1 0 0]\<rparr>,
             \<lparr>name = ''Smile'', data = [Vector 0 0 0, Vector 100 0 0, Vector 1 0 0]\<rparr>]"
    by (simp add: key_blocks_def face_dest_smile_def)
  from 1 2 3 4 face_scenario
  show "\<exists>skbs dkbs. key_blocks (src_mesh face_state) = Inr skbs \<and>
        map name skbs = [''Basis'', ''Smile''] \<and>
        key_blocks (dest_mesh face_state) = Inr dkbs \<and> map name dkbs = [''Basis''] \<and>
        ''Basis'' \<in> set (default_excluded_keys face_state) \<and>
        (\<exists>s' dkbs'. add_missing_shape_keys use_all skbs (face_state, []) = Inr (s', [''Smile'']) \<and>
             key_blocks (dest_mesh s') = Inr dkbs' \<and>
             map name dkbs' = [''Basis'', ''Smile''])"
    by simp
qed

theorem provision_all_once_witness:
  "key_blocks (dest_mesh face_state)
      = Inr [\<lparr>name = ''Basis'', data = [Vector 0 0 0, Vector 100 0 0, Vector 1 0 0]\<rparr>] \<and>
   (\<exists>s' wl dkbs'. add_missing_shape_keys use_all
        [\<lparr>name = ''Basis'', data = [Vector 0 0 0, Vector 1 0 0]\<rparr>,
         \<lparr>name = ''Smile'', data = [Vector 0 0 1, Vector 1 0 2]\<rparr>] (face_state, []) = Inr (s', wl) \<and>
      key_blocks (dest_mesh s') = Inr dkbs' \<and>
      count_list (map name dkbs') ''Smile'' = 1 \<and> count_list (map name dkbs') ''Basis'' = 1)"
proof -
  let ?skbs = "[\<lparr>name = ''Basis'', data = [Vector 0 0 0, Vector 1 0 0]\<rparr>,
                \<lparr>name = ''Smile'', data = [Vector 0 0 1, Vector 1 0 2]\<rparr>]"
  let ?dkbs = "[\<lparr>name = ''Basis'', data = [Vector 0 0 0, Vector 100 0 0, Vector 1 0 0]\<rparr>]"
  have 2: "key_blocks (dest_mesh face_state) = Inr ?dkbs"
    by (simp add: key_blocks_def face_state_def face_dest_def)
  from provision_all_once [THEN conjunct1, rule_format, OF 2, of ?skbs]
  obtain s' wl dkbs' where r: "add_missing_shape_keys use_all ?skbs (face_state, []) = Inr (s', wl)"
    "key_blocks (dest_mesh s') = Inr dkbs'"
    and a: "\<forall>k \<in> name ` set ?skbs. k \<notin> name ` set ?dkbs \<and>
               k \<notin> set (default_excluded_keys face_state)
                \<longrightarrow> count_list (map name dkbs') k = 1"
    and b: "\<forall>k \<in> name ` set ?dkbs. count_list (map name dkbs') k = count_list (map name ?dkbs) k"
    by (elim exE conjE)
  from a have "count_list (map name dkbs') ''Smile'' = 1"
    by (simp add: face_state_def skt_init_def)
  moreover from b have "count_list (map name dkbs') ''Basis'' = 1"
    by simp
  ultimately show ?thesis using r 2 by blast
qed

section \<open>Properties of the vertex update\<close>

lemma vec_add_zero: "vec_add (Vector 0 0 0) v = v"
  by (cases v) simp

lemma vec_div_one: "vec_div v (Suc 0) = Inr v"
  by (cases v) simp

lemma vec_add_commute: "vec_add u v = vec_add v u"
  by (cases u; cases v) simp

lemma average_position_single: "average_position ps [i] = item ps i"
  by (simp add: average_position_def vec_add_zero vec_div_one item_def)

lemma average_position_pair:
  "average_position ps [a, b] =
     (case item ps a of Inl e \<Rightarrow> Inl e
      | Inr pa \<Rightarrow> (case item ps b of Inl e \<Rightarrow> Inl e | Inr pb \<Rightarrow> vec_div (vec_add pa pb) 2))"
  by (simp add: average_position_def vec_add_zero item_def numeral_2_eq_2)

lemma average_position_swap: "average_position ps [a, b] = average_position ps [b, a]"
  by (simp add: average_position_pair item_def vec_add_commute)

lemma search_once_cached: "\<not> do_once_per_vertex s \<Longrightarrow> search_once s = Inr s"
  by (simp add: search_once_def)

lemma search_once_fresh:
  assumes "search_once s = Inr s1" and "do_once_per_vertex s"
  shows "\<exists>d co. dest_mesh s = Some d \<and>
           key_co (dest_mesh s) 0 (current_vertex_index s) = Inr co \<and>
           select_required_verts s (mat_vec (matrix_world d) co) 0 0
             = Inr (src_chosen_vertices s1) \<and>
           current_vertex s1 = Some (mat_vec (matrix_world d) co)"
proof -
  from assms obtain d co verts where d: "dest_mesh s = Some d"
    and co: "key_co (dest_mesh s) 0 (current_vertex_index s) = Inr co"
    and sv: "select_required_verts (s\<lparr>current_vertex := Some (mat_vec (matrix_world d) co)\<rparr>)
               (mat_vec (matrix_world d) co) 0 0 = Inr verts"
    and s1: "s1 = s\<lparr>current_vertex := Some (mat_vec (matrix_world d) co),
                  src_chosen_vertices := verts, do_once_per_vertex := False\<rparr>"
    by (auto simp: search_once_def Let_def split: if_splits option.splits sum.splits)
  have "select_required_verts (s\<lparr>current_vertex := Some (mat_vec (matrix_world d) co)\<rparr>)
               (mat_vec (matrix_world d) co) 0 0
        = select_required_verts s (mat_vec (matrix_world d) co) 0 0"
    by (rule select_required_verts_cong) simp_all
  with d co sv s1 show ?thesis by simp
qed

lemma set_vertex_position_result:
  assumes "set_vertex_position v s = Inr s'"
  shows "\<exists>d. s' = s\<lparr>dest_mesh := d\<rparr> \<and>
           key_co (dest_mesh s') (dest_shape_key_index s) (current_vertex_index s) = Inr v"
  using assms
  by (auto simp: set_vertex_position_def Let_def key_co_def key_data_def key_blocks_def item_def
      split: option.splits if_splits)

text \<open>The branch of \<open>update_vertex\<close> that blends.\<close>

lemma update_vertex_blend:
  assumes "update_vertex s = Inr (ab, s')" and "current_vertex_index s < total_vertices s"
    and "src_chosen_vertices s' \<noteq> []"
  shows "\<exists>s1 basis target rp rp2 cv.
           search_once s = Inr s1 \<and> src_chosen_vertices s1 = src_chosen_vertices s' \<and>
           key_data (src_mesh s1) 0 = Inr basis \<and>
           average_position basis (src_chosen_vertices s1) = Inr rp \<and>
           key_data (src_mesh s1) (src_shape_key_index s1) = Inr target \<and>
           average_position target (src_chosen_vertices s1) = Inr rp2 \<and>
           current_vertex s1 = Some cv \<and>
           set_vertex_position (vec_add (vec_sub rp2 rp) cv) s1 = Inr s' \<and> \<not> ab"
proof -
  from assms(1,2) obtain s1 where s1: "search_once s = Inr s1"
    by (auto simp: update_vertex_def split: sum.splits)
  have ne: "src_chosen_vertices s1 \<noteq> []"
  proof
    assume "src_chosen_vertices s1 = []"
    with assms(1,2) s1 have "src_chosen_vertices s' = []"
      by (auto simp: update_vertex_def Let_def split: if_splits)
    with assms(3) show False by simp
  qed
  from assms(1,2) s1 ne obtain basis rp target rp2 cv where
    r: "key_data (src_mesh s1) 0 = Inr basis"
      "average_position basis (src_chosen_vertices s1) = Inr rp"
      "key_data (src_mesh s1) (src_shape_key_index s1) = Inr target"
      "average_position target (src_chosen_vertices s1) = Inr rp2"
      "current_vertex s1 = Some cv"
      "set_vertex_position (vec_add (vec_sub rp2 rp) cv) s1 = Inr s'" "\<not> ab"
    by (auto simp: update_vertex_def split: sum.splits option.splits)
  from set_vertex_position_result [OF r(6)] have "src_chosen_vertices s1 = src_chosen_vertices s'"
    by auto
  with s1 r show ?thesis by blast
qed


lemma search_once_fields:
  assumes "search_once s = Inr s1"
  shows "src_mesh s1 = src_mesh s \<and> dest_mesh s1 = dest_mesh s \<and>
         src_shape_key_index s1 = src_shape_key_index s \<and>
         dest_shape_key_index s1 = dest_shape_key_index s \<and>
         current_vertex_index s1 = current_vertex_index s \<and>
         total_vertices s1 = total_vertices s \<and>
         skip_vertices_with_no_pair s1 = skip_vertices_with_no_pair s \<and>
         \<not> do_once_per_vertex s1"
  using assms
  by (auto simp: search_once_def Let_def split: if_splits option.splits sum.splits)

lemma search_once_shape:
  assumes "search_once s = Inr s1"
  shows "s1 = s\<lparr>do_once_per_vertex := False, current_vertex := current_vertex s1,
                 src_chosen_vertices := src_chosen_vertices s1\<rparr>"
  using assms
  by (cases s) (auto simp: search_once_def Let_def split: if_splits option.splits sum.splits)

lemma set_vertex_position_chosen:
  "set_vertex_position v s = Inr s' \<Longrightarrow>
   set_vertex_position v (s\<lparr>src_chosen_vertices := c\<rparr>) = Inr (s'\<lparr>src_chosen_vertices := c\<rparr>)"
  by (auto simp: set_vertex_position_def Let_def split: option.splits if_splits)

lemma key_co_data: "key_data ob k = Inr ps \<Longrightarrow> key_co ob k i = item ps i"
  by (simp add: key_co_def)

lemmas face_defs = face_ready_def face_vertex0_def face_pair_def face_state_def face_src_def
  face_dest_def face_dest_smile_def skt_init_def identity_matrix_def

lemmas access_defs = key_co_def key_data_def key_blocks_def item_def

lemma face_vertex0_update:
  "update_vertex face_vertex0 = Inr (False, face_vertex0\<lparr>do_once_per_vertex := False,
      current_vertex := Some (Vector 0 0 0), src_chosen_vertices := [0],
      dest_mesh := Some (face_dest_smile\<lparr>shape_keys := Some
         [\<lparr>name = ''Basis'', data = [Vector 0 0 0, Vector 100 0 0, Vector 1 0 0]\<rparr>,
          \<lparr>name = ''Smile'', data = [Vector 0 0 1, Vector 100 0 0, Vector 1 0 0]\<rparr>]\<rparr>)\<rparr>)"
  by (simp add: update_vertex_def search_once_def face_defs access_defs
      select_required_verts.simps select_vertices_def Let_def average_position_def
      set_vertex_position_def)

lemma face_pair_update:
  "update_vertex face_pair = Inr (False, face_pair\<lparr>
      dest_mesh := Some (face_dest_smile\<lparr>shape_keys := Some
         [\<lparr>name = ''Basis'', data = [Vector 0 0 0, Vector 100 0 0, Vector 1 0 0]\<rparr>,
          \<lparr>name = ''Smile'', data = [Vector 0 0 (3/2), Vector 100 0 0, Vector 1 0 0]\<rparr>]\<rparr>)\<rparr>)"
  by (simp add: update_vertex_def search_once_def face_defs access_defs
      Let_def average_position_def set_vertex_position_def)


text \<open>
  C6.  When \<open>update_vertex\<close> runs for a vertex inside the mesh and the matched set it
  blends is the single source index \<open>i\<close>, the position written into the destination
  key at the current vertex is \<open>w + (t - b)\<close>, where \<open>w\<close> is the world position of the
  destination vertex kept in \<open>current_vertex\<close> (the destination's world matrix applied
  to the vertex's basis position, when the search has just been made), \<open>t\<close> is the
  position of source vertex \<open>i\<close> in the source key being transferred and \<open>b\<close> its
  position in the source's basis key.
\<close>

theorem single_match_blend:
  assumes "update_vertex s = Inr (ab, s')" and "current_vertex_index s < total_vertices s"
    and "src_chosen_vertices s' = [i]"
  shows "\<exists>w b t. current_vertex s' = Some w \<and>
           key_co (src_mesh s) 0 i = Inr b \<and>
           key_co (src_mesh s) (src_shape_key_index s) i = Inr t \<and>
           key_co (dest_mesh s') (dest_shape_key_index s) (current_vertex_index s)
             = Inr (vec_add w (vec_sub t b)) \<and>
           (do_once_per_vertex s \<longrightarrow>
              (\<exists>d co. dest_mesh s = Some d \<and>
                 key_co (dest_mesh s) 0 (current_vertex_index s) = Inr co \<and>
                 w = mat_vec (matrix_world d) co))"
proof -
  from assms(3) have ne: "src_chosen_vertices s' \<noteq> []" by simp
  from update_vertex_blend [OF assms(1,2) ne] obtain s1 basis target rp rp2 cv where
    s1: "search_once s = Inr s1" and ch: "src_chosen_vertices s1 = src_chosen_vertices s'"
    and kb: "key_data (src_mesh s1) 0 = Inr basis"
    and ab: "average_position basis (src_chosen_vertices s1) = Inr rp"
    and kt: "key_data (src_mesh s1) (src_shape_key_index s1) = Inr target"
    and at: "average_position target (src_chosen_vertices s1) = Inr rp2"
    and cv: "current_vertex s1 = Some cv"
    and sv: "set_vertex_position (vec_add (vec_sub rp2 rp) cv) s1 = Inr s'"
    by (elim exE conjE)
  note f = search_once_fields [OF s1]
  from ab ch assms(3) have b: "item basis i = Inr rp"
    by (simp add: average_position_single)
  from at ch assms(3) have t: "item target i = Inr rp2"
    by (simp add: average_position_single)
  from kb f b have 1: "key_co (src_mesh s) 0 i = Inr rp"
    by (simp add: key_co_def)
  from kt f t have 2: "key_co (src_mesh s) (src_shape_key_index s) i = Inr rp2"
    by (simp add: key_co_def)
  from set_vertex_position_result [OF sv] obtain d where
    s': "s' = s1\<lparr>dest_mesh := d\<rparr>"
    and w: "key_co (dest_mesh s') (dest_shape_key_index s1) (current_vertex_index s1)
         = Inr (vec_add (vec_sub rp2 rp) cv)"
    by blast
  from s' cv have 3: "current_vertex s' = Some cv" by simp
  from w f have 4: "key_co (dest_mesh s') (dest_shape_key_index s) (current_vertex_index s)
      = Inr (vec_add cv (vec_sub rp2 rp))"
    by (simp add: vec_add_commute)
  have 5: "do_once_per_vertex s \<longrightarrow>
              (\<exists>d co. dest_mesh s = Some d \<and>
                 key_co (dest_mesh s) 0 (current_vertex_index s) = Inr co \<and>
                 cv = mat_vec (matrix_world d) co)"
  proof
    assume "do_once_per_vertex s"
    from search_once_fresh [OF s1 this] obtain d co where
      "dest_mesh s = Some d" "key_co (dest_mesh s) 0 (current_vertex_index s) = Inr co"
      "current_vertex s1 = Some (mat_vec (matrix_world d) co)"
      by blast
    then show "\<exists>d co. dest_mesh s = Some d \<and>
                 key_co (dest_mesh s) 0 (current_vertex_index s) = Inr co \<and>
                 cv = mat_vec (matrix_world d) co"
      using cv by auto
  qed
  from 1 2 3 4 5 show ?thesis by blast
qed


theorem single_match_blend_witness:
  "current_vertex_index face_vertex0 < total_vertices face_vertex0 \<and>
   (\<exists>s'. update_vertex face_vertex0 = Inr (False, s') \<and> src_chosen_vertices s' = [0] \<and>
      key_co (src_mesh face_vertex0) 0 0 = Inr (Vector 0 0 0) \<and>
      key_co (src_mesh face_vertex0) 1 0 = Inr (Vector 0 0 1) \<and>
      key_co (dest_mesh s') 1 0 = Inr (Vector 0 0 1))"
proof -
  let ?s' = "face_vertex0\<lparr>do_once_per_vertex := False,
      current_vertex := Some (Vector 0 0 0), src_chosen_vertices := [0],
      dest_mesh := Some (face_dest_smile\<lparr>shape_keys := Some
         [\<lparr>name = ''Basis'', data = [Vector 0 0 0, Vector 100 0 0, Vector 1 0 0]\<rparr>,
          \<lparr>name = ''Smile'', data = [Vector 0 0 1, Vector 100 0 0, Vector 1 0 0]\<rparr>]\<rparr>)\<rparr>"
  have h2: "current_vertex_index face_vertex0 < total_vertices face_vertex0"
    by (simp add: face_defs)
  have h3: "src_chosen_vertices ?s' = [0]" by simp
  from single_match_blend [OF face_vertex0_update h2 h3]
  have "key_co (dest_mesh ?s') 1 0 = Inr (Vector 0 0 1)"
    by (auto simp: face_defs access_defs)
  moreover have "key_co (src_mesh face_vertex0) 0 0 = Inr (Vector 0 0 0)"
    "key_co (src_mesh face_vertex0) 1 0 = Inr (Vector 0 0 1)"
    by (simp_all add: face_defs access_defs)
  ultimately show ?thesis using face_vertex0_update h2 h3 by blast
qed

text \<open>
  C8.  When the matched set blended by \<open>update_vertex\<close> is \<open>[a, b]\<close>, the position
  written is \<open>w + (avg_target - avg_basis)\<close> with \<open>avg_basis\<close> the sum of the basis
  positions of \<open>a\<close> and \<open>b\<close> divided by 2 and \<open>avg_target\<close> the same for the key
  being transferred; and running \<open>update_vertex\<close> on the same cached search result in
  the order \<open>[b, a]\<close> gives the same return value and the same state (the same
  destination mesh), apart from the stored order itself.
\<close>

theorem pair_match_blend:
  assumes "update_vertex s = Inr (ab, s')" and "current_vertex_index s < total_vertices s"
    and "src_chosen_vertices s' = [a, b]"
  shows "\<exists>w pa pb ta tb avg_basis avg_target.
           current_vertex s' = Some w \<and>
           key_co (src_mesh s) 0 a = Inr pa \<and> key_co (src_mesh s) 0 b = Inr pb \<and>
           key_co (src_mesh s) (src_shape_key_index s) a = Inr ta \<and>
           key_co (src_mesh s) (src_shape_key_index s) b = Inr tb \<and>
           vec_div (vec_add pa pb) 2 = Inr avg_basis \<and>
           vec_div (vec_add ta tb) 2 = Inr avg_target \<and>
           key_co (dest_mesh s') (dest_shape_key_index s) (current_vertex_index s)
             = Inr (vec_add w (vec_sub avg_target avg_basis)) \<and>
           update_vertex (s\<lparr>do_once_per_vertex := False, current_vertex := Some w,
                            src_chosen_vertices := [b, a]\<rparr>)
             = Inr (ab, s'\<lparr>src_chosen_vertices := [b, a]\<rparr>)"
proof -
  from assms(3) have ne: "src_chosen_vertices s' \<noteq> []" by simp
  from update_vertex_blend [OF assms(1,2) ne] obtain s1 basis target rp rp2 cv where
    s1: "search_once s = Inr s1" and ch: "src_chosen_vertices s1 = src_chosen_vertices s'"
    and kb: "key_data (src_mesh s1) 0 = Inr basis"
    and ab: "average_position basis (src_chosen_vertices s1) = Inr rp"
    and kt: "key_data (src_mesh s1) (src_shape_key_index s1) = Inr target"
    and at: "average_position target (src_chosen_vertices s1) = Inr rp2"
    and cv: "current_vertex s1 = Some cv"
    and sv: "set_vertex_position (vec_add (vec_sub rp2 rp) cv) s1 = Inr s'"
    and nab: "\<not> ab"
    by (elim exE conjE)
  note f = search_once_fields [OF s1]
  from ch assms(3) have ch1: "src_chosen_vertices s1 = [a, b]" by simp
  from ab ch1 obtain pa pb where pa: "item basis a = Inr pa" and pb: "item basis b = Inr pb"
    and avb: "vec_div (vec_add pa pb) 2 = Inr rp"
    by (auto simp: average_position_pair split: sum.splits)
  from at ch1 obtain ta tb where ta: "item target a = Inr ta" and tb: "item target b = Inr tb"
    and avt: "vec_div (vec_add ta tb) 2 = Inr rp2"
    by (auto simp: average_position_pair split: sum.splits)
  from kb f pa pb have 1: "key_co (src_mesh s) 0 a = Inr pa" "key_co (src_mesh s) 0 b = Inr pb"
    by (simp_all add: key_co_def)
  from kt f ta tb have 2: "key_co (src_mesh s) (src_shape_key_index s) a = Inr ta"
    "key_co (src_mesh s) (src_shape_key_index s) b = Inr tb"
    by (simp_all add: key_co_def)
  from set_vertex_position_result [OF sv] obtain d where
    s': "s' = s1\<lparr>dest_mesh := d\<rparr>"
    and w: "key_co (dest_mesh s') (dest_shape_key_index s1) (current_vertex_index s1)
         = Inr (vec_add (vec_sub rp2 rp) cv)"
    by blast
  from s' cv have 3: "current_vertex s' = Some cv" by simp
  from w f have 4: "key_co (dest_mesh s') (dest_shape_key_index s) (current_vertex_index s)
      = Inr (vec_add cv (vec_sub rp2 rp))"
    by (simp add: vec_add_commute)
  let ?r = "s\<lparr>do_once_per_vertex := False, current_vertex := Some cv,
               src_chosen_vertices := [b, a]\<rparr>"
  from search_once_shape [OF s1] cv ch1
  have "s1 = s\<lparr>do_once_per_vertex := False, current_vertex := Some cv,
                 src_chosen_vertices := [a, b]\<rparr>"
    by simp
  then have r: "?r = s1\<lparr>src_chosen_vertices := [b, a]\<rparr>"
    by simp
  have so: "search_once ?r = Inr ?r"
    by (simp add: search_once_cached)
  from set_vertex_position_chosen [OF sv, of "[b, a]"] r
  have svr: "set_vertex_position (vec_add (vec_sub rp2 rp) cv) ?r
      = Inr (s'\<lparr>src_chosen_vertices := [b, a]\<rparr>)"
    by simp
  from r kb have kbr: "key_data (src_mesh ?r) 0 = Inr basis" by simp
  from r kt f have ktr: "key_data (src_mesh ?r) (src_shape_key_index ?r) = Inr target" by simp
  from ab ch1 have abr: "average_position basis [b, a] = Inr rp"
    by (simp add: average_position_swap)
  from at ch1 have atr: "average_position target [b, a] = Inr rp2"
    by (simp add: average_position_swap)
  from assms(2) have lt: "\<not> total_vertices ?r \<le> current_vertex_index ?r" by simp
  have 5: "update_vertex ?r = Inr (ab, s'\<lparr>src_chosen_vertices := [b, a]\<rparr>)"
    unfolding update_vertex_def using lt so kbr ktr abr atr svr nab
    by simp
  from 1 2 3 4 5 avb avt show ?thesis by blast
qed

theorem pair_match_blend_witness:
  "current_vertex_index face_pair < total_vertices face_pair \<and>
   (\<exists>s'. update_vertex face_pair = Inr (False, s') \<and> src_chosen_vertices s' = [0, 1] \<and>
      key_co (dest_mesh s') 1 0 = Inr (Vector 0 0 (3 / 2)) \<and>
      (\<exists>w. update_vertex (face_pair\<lparr>do_once_per_vertex := False, current_vertex := Some w,
                            src_chosen_vertices := [1, 0]\<rparr>)
             = Inr (False, s'\<lparr>src_chosen_vertices := [1, 0]\<rparr>)))"
proof -
  let ?s' = "face_pair\<lparr>
      dest_mesh := Some (face_dest_smile\<lparr>shape_keys := Some
         [\<lparr>name = ''Basis'', data = [Vector 0 0 0, Vector 100 0 0, Vector 1 0 0]\<rparr>,
          \<lparr>name = ''Smile'', data = [Vector 0 0 (3/2), Vector 100 0 0, Vector 1 0 0]\<rparr>]\<rparr>)\<rparr>"
  have h2: "current_vertex_index face_pair < total_vertices face_pair"
    by (simp add: face_defs)
  have h3: "src_chosen_vertices ?s' = [0, 1]" by (simp add: face_pair_def)
  have k: "key_co (dest_mesh ?s') 1 0 = Inr (Vector 0 0 (3 / 2))"
    by (simp add: access_defs)
  from pair_match_blend [OF face_pair_update h2 h3]
  have "\<exists>w. update_vertex (face_pair\<lparr>do_once_per_vertex := False, current_vertex := Some w,
                            src_chosen_vertices := [1, 0]\<rparr>)
             = Inr (False, ?s'\<lparr>src_chosen_vertices := [1, 0]\<rparr>)"
    by blast
  with face_pair_update h2 h3 k show ?thesis by blast
qed

section \<open>Properties of the transfer loop\<close>

lemma consistentD:
  assumes "consistent s"
  obtains src d mwi skbs dkbs where "src_mesh s = Some src" "dest_mesh s = Some d"
    "src_mwi s = Some mwi" "shape_keys src = Some skbs" "shape_keys d = Some dkbs"
    "skbs \<noteq> []" "dkbs \<noteq> []"
    "\<forall>sk \<in> set skbs. length (data (skbs ! 0)) \<le> length (data sk)"
    "\<forall>dk \<in> set dkbs. total_vertices s \<le> length (data dk)"
    "src_shape_key_index s < length skbs" "dest_shape_key_index s < length dkbs"
  using assms
  by (auto simp: consistent_def list_all_iff split: option.splits)

lemma consistentI:
  assumes "src_mesh s = Some src" "dest_mesh s = Some d"
    "src_mwi s = Some mwi" "shape_keys src = Some skbs" "shape_keys d = Some dkbs"
    "skbs \<noteq> []" "dkbs \<noteq> []"
    "\<forall>sk \<in> set skbs. length (data (skbs ! 0)) \<le> length (data sk)"
    "\<forall>dk \<in> set dkbs. total_vertices s \<le> length (data dk)"
    "src_shape_key_index s < length skbs" "dest_shape_key_index s < length dkbs"
  shows "consistent s"
  using assms by (simp add: consistent_def list_all_iff)

lemma frame_refl: "frame s s"
  by (simp add: frame_def)

lemma frame_trans: "frame s t \<Longrightarrow> frame t u \<Longrightarrow> frame s u"
  by (simp add: frame_def)

lemma index_of_name_bound:
  "index_of_name p kbs cur = cur \<or> index_of_name p kbs cur < length kbs"
proof (induction kbs rule: rev_induct)
  case Nil
  show ?case by (simp add: index_of_name_def)
next
  case (snoc x xs)
  then show ?case
    by (auto simp: index_of_name_def enumerate_snoc)
qed

lemma update_global_consistent:
  assumes "consistent s"
  shows "\<exists>di si. update_global_shapekey_indices k s
            = Inr (s\<lparr>dest_shape_key_index := di, src_shape_key_index := si\<rparr>) \<and>
          consistent (s\<lparr>dest_shape_key_index := di, src_shape_key_index := si\<rparr>)"
proof -
  from assms obtain src d mwi skbs dkbs where c: "src_mesh s = Some src" "dest_mesh s = Some d"
    "src_mwi s = Some mwi" "shape_keys src = Some skbs" "shape_keys d = Some dkbs"
    "skbs \<noteq> []" "dkbs \<noteq> []"
    "\<forall>sk \<in> set skbs. length (data (skbs ! 0)) \<le> length (data sk)"
    "\<forall>dk \<in> set dkbs. total_vertices s \<le> length (data dk)"
    "src_shape_key_index s < length skbs" "dest_shape_key_index s < length dkbs"
    by (rule consistentD)
  let ?di = "index_of_name k dkbs (dest_shape_key_index s)"
  let ?si = "index_of_name k skbs (src_shape_key_index s)"
  let ?s' = "s\<lparr>dest_shape_key_index := ?di, src_shape_key_index := ?si\<rparr>"
  from c have 1: "update_global_shapekey_indices k s = Inr ?s'"
    by (simp add: update_global_shapekey_indices_def key_blocks_def)
  from index_of_name_bound [of k dkbs "dest_shape_key_index s"] c(11)
  have di: "?di < length dkbs" by auto
  from index_of_name_bound [of k skbs "src_shape_key_index s"] c(10)
  have si: "?si < length skbs" by auto
  have 2: "consistent ?s'"
    by (rule consistentI [of _ src d mwi skbs dkbs]) (use c di si in simp_all)
  from 1 2 show ?thesis by blast
qed


lemma set_vertex_position_consistent:
  assumes "consistent s" and "current_vertex_index s < total_vertices s"
  shows "\<exists>d'. set_vertex_position v s = Inr (s\<lparr>dest_mesh := Some d'\<rparr>) \<and>
           consistent (s\<lparr>dest_mesh := Some d'\<rparr>) \<and>
           map_option matrix_world (dest_mesh s) = Some (matrix_world d') \<and>
           (\<forall>k j. j \<noteq> current_vertex_index s \<longrightarrow>
               key_co (Some d') k j = key_co (dest_mesh s) k j)"
proof -
  from assms(1) obtain src d mwi skbs dkbs where c: "src_mesh s = Some src" "dest_mesh s = Some d"
    "src_mwi s = Some mwi" "shape_keys src = Some skbs" "shape_keys d = Some dkbs"
    "skbs \<noteq> []" "dkbs \<noteq> []"
    "\<forall>sk \<in> set skbs. length (data (skbs ! 0)) \<le> length (data sk)"
    "\<forall>dk \<in> set dkbs. total_vertices s \<le> length (data dk)"
    "src_shape_key_index s < length skbs" "dest_shape_key_index s < length dkbs"
    by (rule consistentD)
  let ?i = "dest_shape_key_index s"
  let ?c = "current_vertex_index s"
  let ?sk = "(dkbs ! ?i)\<lparr>data := (data (dkbs ! ?i))[?c := v]\<rparr>"
  let ?d' = "d\<lparr>shape_keys := Some (dkbs[?i := ?sk])\<rparr>"
  from c(9,11) have "total_vertices s \<le> length (data (dkbs ! ?i))" by simp
  with assms(2) have lt: "?c < length (data (dkbs ! ?i))" by simp
  with c have 1: "set_vertex_position v s = Inr (s\<lparr>dest_mesh := Some ?d'\<rparr>)"
    by (simp add: set_vertex_position_def Let_def)
  have len: "\<forall>dk \<in> set (dkbs[?i := ?sk]). total_vertices s \<le> length (data dk)"
  proof
    fix dk assume "dk \<in> set (dkbs[?i := ?sk])"
    then have "dk \<in> insert ?sk (set dkbs)" using set_update_subset_insert by fastforce
    with c(9,11) show "total_vertices s \<le> length (data dk)" by auto
  qed
  have 2: "consistent (s\<lparr>dest_mesh := Some ?d'\<rparr>)"
    by (rule consistentI [of _ src ?d' mwi skbs "dkbs[?i := ?sk]"]) (use c len in simp_all)
  have 3: "map_option matrix_world (dest_mesh s) = Some (matrix_world ?d')"
    using c by simp
  have 4: "\<forall>k j. j \<noteq> ?c \<longrightarrow> key_co (Some ?d') k j = key_co (dest_mesh s) k j"
    using c by (auto simp: key_co_def key_data_def key_blocks_def item_def nth_list_update)
  from 1 2 3 4 show ?thesis by blast
qed

lemma select_scan_indices:
  "fold (select_step use_one lco rlen) (enumerate 0 vs) ([], cl0, - 1) = (ch, cl, ci) \<Longrightarrow>
   (\<forall>v \<in> set ch. v < length vs) \<and> ci < int (length vs)"
proof (induction vs arbitrary: ch cl ci rule: rev_induct)
  case Nil
  then show ?case by simp
next
  case (snoc x xs)
  obtain ch0 cl1 ci0 where
    st: "fold (select_step use_one lco rlen) (enumerate 0 xs) ([], cl0, - 1) = (ch0, cl1, ci0)"
    by (metis prod_cases3)
  from snoc.IH [OF st] have IH: "\<forall>v \<in> set ch0. v < length xs" "ci0 < int (length xs)"
    by simp_all
  from snoc.prems st
  have "select_step use_one lco rlen (length xs, x) (ch0, cl1, ci0) = (ch, cl, ci)"
    by (simp add: enumerate_snoc)
  with IH show ?case
    by (auto split: if_splits simp: less_Suc_eq)
qed

lemma select_vertices_indices:
  assumes "select_vertices s center radius = Inr verts" and "key_data (src_mesh s) 0 = Inr vs"
  shows "\<forall>v \<in> set verts. v < length vs"
proof -
  from assms obtain mwi where mwi: "src_mwi s = Some mwi"
    by (auto simp: select_vertices_def split: option.splits)
  let ?lco = "mat_vec mwi center"
  let ?rlen = "vec_length (vec_sub (mat_vec mwi (vec_add center (Vector 0 0 radius))) ?lco)"
  obtain ch cl ci where st:
    "fold (select_step (use_one_vertex s) ?lco ?rlen) (enumerate 0 vs) ([], ?rlen, - 1) = (ch, cl, ci)"
    by (metis prod_cases3)
  from select_scan_indices [OF st] have i: "\<forall>v \<in> set ch. v < length vs" "ci < int (length vs)"
    by simp_all
  from assms mwi st have "verts = (if use_one_vertex s then (if ci > - 1 then [nat ci] else [])
      else ch)"
    by (simp add: select_vertices_def Let_def split: if_splits)
  with i show ?thesis by (auto split: if_splits)
qed

lemma select_required_verts_indices:
  assumes "select_required_verts s vert rad level = Inr verts"
    and "key_data (src_mesh s) 0 = Inr vs"
  shows "\<forall>v \<in> set verts. v < length vs"
  using assms
proof (induction s vert rad level rule: select_required_verts.induct)
  case (1 s vert rad level)
  show ?case
  proof (cases "level > number_of_increments s")
    case True
    with "1.prems" show ?thesis by (simp add: select_required_verts.simps)
  next
    case False
    from select_vertices_returns [of s _ vs vert rad] "1.prems"(2)
    show ?thesis
    proof (cases "select_vertices s vert rad")
      case (Inl e)
      with False "1.prems" show ?thesis
        by (simp add: select_required_verts.simps [of s vert rad])
    next
      case (Inr vv)
      show ?thesis
      proof (cases "length vv = 0")
        case True
        with False Inr "1.prems"
        have "select_required_verts s vert (rad + increment_radius s) (level + 1) = Inr verts"
          by (simp add: select_required_verts.simps [of s vert rad])
        from "1.IH" [OF False Inr True this "1.prems"(2)] show ?thesis .
      next
        case F: False
        with False Inr "1.prems" have "verts = vv"
          by (simp add: select_required_verts.simps [of s vert rad])
        with select_vertices_indices [OF Inr "1.prems"(2)] show ?thesis by simp
      qed
    qed
  qed
qed

lemma select_required_verts_returns:
  assumes "src_mwi s = Some mwi" and "key_data (src_mesh s) 0 = Inr vs"
  shows "\<exists>verts. select_required_verts s vert rad level = Inr verts"
  using assms
proof (induction s vert rad level rule: select_required_verts.induct)
  case (1 s vert rad level)
  show ?case
  proof (cases "level > number_of_increments s")
    case True
    then show ?thesis by (simp add: select_required_verts.simps)
  next
    case False
    from select_vertices_returns [OF "1.prems", of vert rad] obtain vv where
      vv: "select_vertices s vert rad = Inr vv" by blast
    show ?thesis
    proof (cases "length vv = 0")
      case True
      from "1.IH" [OF False vv True "1.prems"] False vv True show ?thesis
        by (simp add: select_required_verts.simps [of s vert rad])
    next
      case F: False
      with False vv show ?thesis
        by (simp add: select_required_verts.simps [of s vert rad])
    qed
  qed
qed

lemma sum_positions_returns:
  "\<forall>v \<in> set chosen. v < length ps \<Longrightarrow> \<exists>r. sum_positions ps chosen acc = Inr r"
  by (induction chosen arbitrary: acc) (auto simp: item_def)

lemma average_position_returns:
  assumes "\<forall>v \<in> set chosen. v < length ps" and "chosen \<noteq> []"
  shows "\<exists>r. average_position ps chosen = Inr r"
proof -
  from sum_positions_returns [OF assms(1)] obtain r where
    "sum_positions ps chosen (Vector 0 0 0) = Inr r" by blast
  with assms(2) show ?thesis
    by (cases r) (simp add: average_position_def)
qed


lemma consistent_basis:
  assumes "consistent s"
  shows "\<exists>skbs :: ShapeKey list. key_data (src_mesh s) 0 = Inr (data (skbs ! 0)) \<and>
    key_data (src_mesh s) (src_shape_key_index s) = Inr (data (skbs ! src_shape_key_index s)) \<and>
    length (data (skbs ! 0)) \<le> length (data (skbs ! src_shape_key_index s))"
proof -
  from assms obtain src d mwi skbs dkbs where c: "src_mesh s = Some src" "dest_mesh s = Some d"
    "src_mwi s = Some mwi" "shape_keys src = Some skbs" "shape_keys d = Some dkbs"
    "skbs \<noteq> []" "dkbs \<noteq> []"
    "\<forall>sk \<in> set skbs. length (data (skbs ! 0)) \<le> length (data sk)"
    "\<forall>dk \<in> set dkbs. total_vertices s \<le> length (data dk)"
    "src_shape_key_index s < length skbs" "dest_shape_key_index s < length dkbs"
    by (rule consistentD)
  from c have 1: "key_data (src_mesh s) 0 = Inr (data (skbs ! 0))"
    by (simp add: key_data_def key_blocks_def item_def)
  from c have 2: "key_data (src_mesh s) (src_shape_key_index s)
      = Inr (data (skbs ! src_shape_key_index s))"
    by (simp add: key_data_def key_blocks_def item_def)
  from c(8,10) have 3: "length (data (skbs ! 0)) \<le> length (data (skbs ! src_shape_key_index s))"
    by simp
  from 1 2 3 show ?thesis by blast
qed

lemma consistent_dest_co:
  assumes "consistent s" and "i < total_vertices s"
  obtains d co where "dest_mesh s = Some d" "key_co (dest_mesh s) 0 i = Inr co"
proof -
  from assms(1) obtain src d mwi skbs dkbs where c: "src_mesh s = Some src" "dest_mesh s = Some d"
    "src_mwi s = Some mwi" "shape_keys src = Some skbs" "shape_keys d = Some dkbs"
    "skbs \<noteq> []" "dkbs \<noteq> []"
    "\<forall>sk \<in> set skbs. length (data (skbs ! 0)) \<le> length (data sk)"
    "\<forall>dk \<in> set dkbs. total_vertices s \<le> length (data dk)"
    "src_shape_key_index s < length skbs" "dest_shape_key_index s < length dkbs"
    by (rule consistentD)
  from c(7,9) have "total_vertices s \<le> length (data (dkbs ! 0))" by simp
  with assms(2) have "i < length (data (dkbs ! 0))" by simp
  with c have "key_co (dest_mesh s) 0 i = Inr (data (dkbs ! 0) ! i)"
    by (simp add: key_co_def key_data_def key_blocks_def item_def)
  with c(2) show ?thesis by (rule that)
qed

text \<open>Under consistency the search of a vertex inside the mesh returns valid indices.\<close>

lemma vertex_search_returns:
  assumes "consistent s" and "i < total_vertices s"
  obtains verts basis where "vertex_search s i = Inr verts"
    "key_data (src_mesh s) 0 = Inr basis" "\<forall>v \<in> set verts. v < length basis"
proof -
  from assms obtain d co where d: "dest_mesh s = Some d" "key_co (dest_mesh s) 0 i = Inr co"
    by (rule consistent_dest_co)
  from consistent_basis [OF assms(1)] obtain skbs :: "ShapeKey list" where
    b: "key_data (src_mesh s) 0 = Inr (data (skbs ! 0))"
    by blast
  from assms(1) have "src_mwi s \<noteq> None"
    by (auto simp: consistent_def split: option.splits)
  then obtain mwi where mwi: "src_mwi s = Some mwi" by blast
  from select_required_verts_returns [OF mwi b] obtain verts where
    v: "select_required_verts s (mat_vec (matrix_world d) co) 0 0 = Inr verts" by blast
  from d v have 1: "vertex_search s i = Inr verts"
    by (simp add: vertex_search_def)
  from select_required_verts_indices [OF v b] have 2: "\<forall>v \<in> set verts. v < length (data (skbs ! 0))" .
  from 1 b 2 show ?thesis by (rule that)
qed

lemma search_once_vertex_search:
  assumes "do_once_per_vertex s" and "vertex_search s (current_vertex_index s) = Inr verts"
  shows "\<exists>w. search_once s = Inr (s\<lparr>current_vertex := Some w, src_chosen_vertices := verts,
                                      do_once_per_vertex := False\<rparr>)"
proof -
  from assms(2) obtain d co where d: "dest_mesh s = Some d"
    "key_co (dest_mesh s) 0 (current_vertex_index s) = Inr co"
    "select_required_verts s (mat_vec (matrix_world d) co) 0 0 = Inr verts"
    by (auto simp: vertex_search_def split: option.splits sum.splits)
  have "select_required_verts (s\<lparr>current_vertex := Some (mat_vec (matrix_world d) co)\<rparr>)
               (mat_vec (matrix_world d) co) 0 0
        = select_required_verts s (mat_vec (matrix_world d) co) 0 0"
    by (rule select_required_verts_cong) simp_all
  with assms(1) d have "search_once s = Inr (s\<lparr>current_vertex := Some (mat_vec (matrix_world d) co),
      src_chosen_vertices := verts, do_once_per_vertex := False\<rparr>)"
    by (simp add: search_once_def Let_def)
  then show ?thesis by blast
qed

lemma update_vertex_after_search:
  assumes "search_once s = Inr s1" and "current_vertex_index s < total_vertices s"
  shows "update_vertex s = update_vertex s1"
proof -
  note f = search_once_fields [OF assms(1)]
  from f have "search_once s1 = Inr s1" by (simp add: search_once_cached)
  with assms f show ?thesis by (simp add: update_vertex_def)
qed

lemma update_vertex_guard:
  "total_vertices s \<le> current_vertex_index s \<Longrightarrow> update_vertex s = Inr (False, s)"
  by (simp add: update_vertex_def)

lemma update_vertex_unmatched:
  assumes "current_vertex_index s < total_vertices s" and "\<not> do_once_per_vertex s"
    and "src_chosen_vertices s = []"
  shows "update_vertex s = Inr (\<not> skip_vertices_with_no_pair s,
      s\<lparr>message := ''Failed to find surrounding vertices | Try increasing increment radius | vertex index ''
                        @ str (current_vertex_index s) @ '' at shape key index ''
                        @ str (src_shape_key_index s),
        current_vertex_index := current_vertex_index s + 1\<rparr>)"
  using assms by (simp add: update_vertex_def search_once_cached Let_def)

lemma update_vertex_matched:
  assumes "consistent s" and "current_vertex_index s < total_vertices s"
    and "\<not> do_once_per_vertex s" and "src_chosen_vertices s \<noteq> []"
    and "current_vertex s = Some w" and "key_data (src_mesh s) 0 = Inr basis"
    and "\<forall>v \<in> set (src_chosen_vertices s). v < length basis"
  shows "\<exists>d'. update_vertex s = Inr (False, s\<lparr>dest_mesh := Some d'\<rparr>) \<and>
           consistent (s\<lparr>dest_mesh := Some d'\<rparr>) \<and>
           map_option matrix_world (dest_mesh s) = Some (matrix_world d') \<and>
           (\<forall>k j. j \<noteq> current_vertex_index s \<longrightarrow>
               key_co (Some d') k j = key_co (dest_mesh s) k j)"
proof -
  from consistent_basis [OF assms(1)] obtain skbs :: "ShapeKey list" where
    b: "key_data (src_mesh s) 0 = Inr (data (skbs ! 0))"
    and t: "key_data (src_mesh s) (src_shape_key_index s) = Inr (data (skbs ! src_shape_key_index s))"
    and le: "length (data (skbs ! 0)) \<le> length (data (skbs ! src_shape_key_index s))"
    by (elim exE conjE)
  from b assms(6) have basis: "basis = data (skbs ! 0)" by simp
  from assms(7) basis le
  have vt: "\<forall>v \<in> set (src_chosen_vertices s). v < length (data (skbs ! src_shape_key_index s))"
    by fastforce
  from average_position_returns [OF assms(7,4)] obtain rp where
    rp: "average_position basis (src_chosen_vertices s) = Inr rp" by blast
  from average_position_returns [OF vt assms(4)] obtain rp2 where
    rp2: "average_position (data (skbs ! src_shape_key_index s)) (src_chosen_vertices s) = Inr rp2"
    by blast
  from set_vertex_position_consistent [OF assms(1,2), of "vec_add (vec_sub rp2 rp) w"]
  obtain d' where sv: "set_vertex_position (vec_add (vec_sub rp2 rp) w) s
        = Inr (s\<lparr>dest_mesh := Some d'\<rparr>)"
    and r: "consistent (s\<lparr>dest_mesh := Some d'\<rparr>)"
      "map_option matrix_world (dest_mesh s) = Some (matrix_world d')"
      "\<forall>k j. j \<noteq> current_vertex_index s \<longrightarrow> key_co (Some d') k j = key_co (dest_mesh s) k j"
    by blast
  from assms(2,3,4,5,6) t rp rp2 sv
  have "update_vertex s = Inr (False, s\<lparr>dest_mesh := Some d'\<rparr>)"
    by (simp add: update_vertex_def search_once_cached basis)
  with r show ?thesis by blast
qed


lemma keeps_refl: "keeps c s s"
  by (simp add: keeps_def frame_refl)

lemma keeps_trans: "keeps c s t \<Longrightarrow> keeps c t u \<Longrightarrow> keeps c s u"
  by (auto simp: keeps_def intro: frame_trans)

lemma consistent_fields:
  assumes "consistent s" and "src_mesh s' = src_mesh s" and "dest_mesh s' = dest_mesh s"
    and "src_mwi s' = src_mwi s" and "total_vertices s' = total_vertices s"
    and "src_shape_key_index s' = src_shape_key_index s"
    and "dest_shape_key_index s' = dest_shape_key_index s"
  shows "consistent s'"
  using assms(1) unfolding consistent_def assms(2-7) .

lemma for_key_names_matched:
  assumes "consistent t" and "current_vertex_index t < total_vertices t"
    and "\<not> do_once_per_vertex t" and "src_chosen_vertices t \<noteq> []"
    and "current_vertex t = Some w" and "key_data (src_mesh t) 0 = Inr basis"
    and "\<forall>v \<in> set (src_chosen_vertices t). v < length basis"
  shows "\<exists>t'. for_key_names wl t = Inr (False, t') \<and> consistent t' \<and>
           keeps (current_vertex_index t) t t' \<and>
           current_vertex_index t' = current_vertex_index t"
  using assms
proof (induction wl arbitrary: t)
  case Nil
  then show ?case by (simp add: keeps_refl)
next
  case (Cons k ks)
  from update_global_consistent [OF Cons.prems(1), of k] obtain di si where
    ug: "update_global_shapekey_indices k t
            = Inr (t\<lparr>dest_shape_key_index := di, src_shape_key_index := si\<rparr>)"
    and ca: "consistent (t\<lparr>dest_shape_key_index := di, src_shape_key_index := si\<rparr>)"
    by blast
  let ?a = "t\<lparr>dest_shape_key_index := di, src_shape_key_index := si\<rparr>"
  from Cons.prems have pa: "current_vertex_index ?a < total_vertices ?a"
    "\<not> do_once_per_vertex ?a" "src_chosen_vertices ?a \<noteq> []"
    "current_vertex ?a = Some w" "key_data (src_mesh ?a) 0 = Inr basis"
    "\<forall>v \<in> set (src_chosen_vertices ?a). v < length basis"
    by simp_all
  from update_vertex_matched [OF ca pa] obtain d' where
    uv: "update_vertex ?a = Inr (False, ?a\<lparr>dest_mesh := Some d'\<rparr>)"
    and cb: "consistent (?a\<lparr>dest_mesh := Some d'\<rparr>)"
    and mw: "map_option matrix_world (dest_mesh ?a) = Some (matrix_world d')"
    and co: "\<forall>k j. j \<noteq> current_vertex_index ?a \<longrightarrow>
               key_co (Some d') k j = key_co (dest_mesh ?a) k j"
    by blast
  let ?b = "?a\<lparr>dest_mesh := Some d'\<rparr>"
  from Cons.prems have pb: "current_vertex_index ?b < total_vertices ?b"
    "\<not> do_once_per_vertex ?b" "src_chosen_vertices ?b \<noteq> []"
    "current_vertex ?b = Some w" "key_data (src_mesh ?b) 0 = Inr basis"
    "\<forall>v \<in> set (src_chosen_vertices ?b). v < length basis"
    by simp_all
  from Cons.IH [OF cb pb] obtain t' where
    r: "for_key_names ks ?b = Inr (False, t')" "consistent t'"
      "keeps (current_vertex_index ?b) ?b t'"
      "current_vertex_index t' = current_vertex_index ?b"
    by blast
  from mw co have "keeps (current_vertex_index t) t ?b"
    by (auto simp: keeps_def frame_def)
  with r(3) have k: "keeps (current_vertex_index t) t t'"
    by (auto intro: keeps_trans)
  from ug uv r(1) have "for_key_names (k # ks) t = Inr (False, t')" by simp
  with r(2,4) k show ?case by simp
qed

lemma for_key_names_skipping:
  assumes "consistent t" and "\<not> do_once_per_vertex t" and "src_chosen_vertices t = []"
    and "skip_vertices_with_no_pair t"
  shows "\<exists>t'. for_key_names wl t = Inr (False, t') \<and> consistent t' \<and> frame t t' \<and>
           dest_mesh t' = dest_mesh t \<and>
           current_vertex_index t' =
             (if total_vertices t \<le> current_vertex_index t then current_vertex_index t
              else min (current_vertex_index t + length wl) (total_vertices t))"
  using assms
proof (induction wl arbitrary: t)
  case Nil
  then show ?case by (simp add: frame_refl)
next
  case (Cons k ks)
  from update_global_consistent [OF Cons.prems(1), of k] obtain di si where
    ug: "update_global_shapekey_indices k t
            = Inr (t\<lparr>dest_shape_key_index := di, src_shape_key_index := si\<rparr>)"
    and ca: "consistent (t\<lparr>dest_shape_key_index := di, src_shape_key_index := si\<rparr>)"
    by blast
  let ?a = "t\<lparr>dest_shape_key_index := di, src_shape_key_index := si\<rparr>"
  show ?case
  proof (cases "total_vertices t \<le> current_vertex_index t")
    case True
    then have uv: "update_vertex ?a = Inr (False, ?a)"
      by (simp add: update_vertex_guard)
    from Cons.prems have pa: "\<not> do_once_per_vertex ?a" "src_chosen_vertices ?a = []"
      "skip_vertices_with_no_pair ?a" by simp_all
    from Cons.IH [OF ca pa] obtain t' where
      r: "for_key_names ks ?a = Inr (False, t')" "consistent t'" "frame ?a t'"
        "dest_mesh t' = dest_mesh ?a"
        "current_vertex_index t' =
             (if total_vertices ?a \<le> current_vertex_index ?a then current_vertex_index ?a
              else min (current_vertex_index ?a + length ks) (total_vertices ?a))"
      by blast
    from ug uv r(1) have 1: "for_key_names (k # ks) t = Inr (False, t')" by simp
    from r(3) have 2: "frame t t'" by (simp add: frame_def)
    from 1 2 r(2,4,5) True show ?thesis by simp
  next
    case False
    let ?b = "?a\<lparr>message := ''Failed to find surrounding vertices | Try increasing increment radius | vertex index ''
                        @ str (current_vertex_index ?a) @ '' at shape key index ''
                        @ str (src_shape_key_index ?a),
        current_vertex_index := current_vertex_index ?a + 1\<rparr>"
    from False Cons.prems have "update_vertex ?a = Inr (\<not> skip_vertices_with_no_pair ?a, ?b)"
      by (intro update_vertex_unmatched) simp_all
    with Cons.prems(4) have uv: "update_vertex ?a = Inr (False, ?b)" by simp
    have cb: "consistent ?b" by (rule consistent_fields [OF ca]) simp_all
    from Cons.prems have pb: "\<not> do_once_per_vertex ?b" "src_chosen_vertices ?b = []"
      "skip_vertices_with_no_pair ?b" by simp_all
    from Cons.IH [OF cb pb] obtain t' where
      r: "for_key_names ks ?b = Inr (False, t')" "consistent t'" "frame ?b t'"
        "dest_mesh t' = dest_mesh ?b"
        "current_vertex_index t' =
             (if total_vertices ?b \<le> current_vertex_index ?b then current_vertex_index ?b
              else min (current_vertex_index ?b + length ks) (total_vertices ?b))"
      by blast
    from ug uv r(1) have 1: "for_key_names (k # ks) t = Inr (False, t')" by simp
    from r(3) have 2: "frame t t'" by (simp add: frame_def)
    from r(5) have e: "current_vertex_index t' =
        (if total_vertices t \<le> current_vertex_index t + 1 then current_vertex_index t + 1
         else min (current_vertex_index t + 1 + length ks) (total_vertices t))"
      by simp
    have 3: "current_vertex_index t' =
        min (current_vertex_index t + Suc (length ks)) (total_vertices t)"
    proof (cases "total_vertices t \<le> current_vertex_index t + 1")
      case True
      with e have "current_vertex_index t' = current_vertex_index t + 1" by simp
      with True False show ?thesis by arith
    next
      case F: False
      with e have "current_vertex_index t' =
          min (current_vertex_index t + 1 + length ks) (total_vertices t)" by simp
      then show ?thesis by arith
    qed
    from 1 2 3 r(2,4) False show ?thesis by simp
  qed
qed


lemma vertex_search_frame:
  assumes "frame s s'" and "key_co (dest_mesh s') 0 i = key_co (dest_mesh s) 0 i"
  shows "vertex_search s' i = vertex_search s i"
proof (cases "dest_mesh s")
  case None
  with assms(1) have "dest_mesh s' = None" by (simp add: frame_def)
  with None show ?thesis by (simp add: vertex_search_def)
next
  case (Some d)
  with assms(1) obtain d' where d': "dest_mesh s' = Some d'" "matrix_world d' = matrix_world d"
    by (auto simp: frame_def)
  from assms(1) have "select_required_verts s' vert 0 0 = select_required_verts s vert 0 0"
    for vert
    by (intro select_required_verts_cong) (simp_all add: frame_def)
  with Some d' assms(2) show ?thesis
    by (simp add: vertex_search_def split: sum.splits)
qed

lemma keeps_frame: "keeps c s s' \<Longrightarrow> frame s s'"
  by (simp add: keeps_def)

lemma keeps_co: "keeps c s s' \<Longrightarrow> j \<noteq> c \<Longrightarrow> key_co (dest_mesh s') k j = key_co (dest_mesh s) k j"
  by (simp add: keeps_def)

lemma frame_same_dest_keeps: "frame s s' \<Longrightarrow> dest_mesh s' = dest_mesh s \<Longrightarrow> keeps c s s'"
  by (simp add: keeps_def)

text \<open>One round of the loop over the vertices, for a vertex with a non-empty search result.\<close>

lemma iteration_matched:
  assumes "consistent s" and "current_vertex_index s < total_vertices s"
    and "vertex_search s (current_vertex_index s) = Inr verts" and "verts \<noteq> []"
  shows "\<exists>s1. for_key_names wl (s\<lparr>do_once_per_vertex := True\<rparr>) = Inr (False, s1) \<and>
           consistent s1 \<and> keeps (current_vertex_index s) s s1 \<and>
           current_vertex_index s1 = current_vertex_index s"
proof (cases wl)
  case Nil
  have "keeps (current_vertex_index s) s (s\<lparr>do_once_per_vertex := True\<rparr>)"
    by (simp add: keeps_def frame_def)
  moreover have "consistent (s\<lparr>do_once_per_vertex := True\<rparr>)"
    by (rule consistent_fields [OF assms(1)]) simp_all
  ultimately show ?thesis using Nil by simp
next
  case (Cons k ks)
  let ?s0 = "s\<lparr>do_once_per_vertex := True\<rparr>"
  have c0: "consistent ?s0" by (rule consistent_fields [OF assms(1)]) simp_all
  from update_global_consistent [OF c0, of k] obtain di si where
    ug: "update_global_shapekey_indices k ?s0
            = Inr (?s0\<lparr>dest_shape_key_index := di, src_shape_key_index := si\<rparr>)"
    and ca: "consistent (?s0\<lparr>dest_shape_key_index := di, src_shape_key_index := si\<rparr>)"
    by blast
  let ?a = "?s0\<lparr>dest_shape_key_index := di, src_shape_key_index := si\<rparr>"
  have fa: "frame s ?a" by (simp add: frame_def)
  from vertex_search_frame [OF fa, of "current_vertex_index s"] assms(3)
  have vs: "vertex_search ?a (current_vertex_index ?a) = Inr verts" by simp
  have "do_once_per_vertex ?a" by simp
  from search_once_vertex_search [OF this vs] obtain w where
    so: "search_once ?a = Inr (?a\<lparr>current_vertex := Some w, src_chosen_vertices := verts,
                                      do_once_per_vertex := False\<rparr>)"
    by blast
  let ?c = "?a\<lparr>current_vertex := Some w, src_chosen_vertices := verts,
                                      do_once_per_vertex := False\<rparr>"
  from assms(2) have lta: "current_vertex_index ?a < total_vertices ?a" by simp
  from update_vertex_after_search [OF so lta] have uva: "update_vertex ?a = update_vertex ?c" .
  from assms(1,2) obtain verts' basis where vr: "vertex_search s (current_vertex_index s) = Inr verts'"
    "key_data (src_mesh s) 0 = Inr basis" "\<forall>v \<in> set verts'. v < length basis"
    by (rule vertex_search_returns)
  from vr(1) assms(3) have "verts' = verts" by simp
  with vr have basis: "key_data (src_mesh ?c) 0 = Inr basis"
    "\<forall>v \<in> set (src_chosen_vertices ?c). v < length basis"
    by simp_all
  have cc: "consistent ?c" by (rule consistent_fields [OF ca]) simp_all
  from assms(2,4) have pc: "current_vertex_index ?c < total_vertices ?c"
    "\<not> do_once_per_vertex ?c" "src_chosen_vertices ?c \<noteq> []" "current_vertex ?c = Some w"
    by simp_all
  from update_vertex_matched [OF cc pc basis] obtain d' where
    uv: "update_vertex ?c = Inr (False, ?c\<lparr>dest_mesh := Some d'\<rparr>)"
    and cb: "consistent (?c\<lparr>dest_mesh := Some d'\<rparr>)"
    and mw: "map_option matrix_world (dest_mesh ?c) = Some (matrix_world d')"
    and co: "\<forall>k j. j \<noteq> current_vertex_index ?c \<longrightarrow>
               key_co (Some d') k j = key_co (dest_mesh ?c) k j"
    by blast
  let ?b = "?c\<lparr>dest_mesh := Some d'\<rparr>"
  from assms(2,4) basis have pb: "current_vertex_index ?b < total_vertices ?b"
    "\<not> do_once_per_vertex ?b" "src_chosen_vertices ?b \<noteq> []" "current_vertex ?b = Some w"
    "key_data (src_mesh ?b) 0 = Inr basis"
    "\<forall>v \<in> set (src_chosen_vertices ?b). v < length basis"
    by simp_all
  from for_key_names_matched [OF cb pb, of ks] obtain t' where
    r: "for_key_names ks ?b = Inr (False, t')" "consistent t'"
      "keeps (current_vertex_index ?b) ?b t'"
      "current_vertex_index t' = current_vertex_index ?b"
    by blast
  from mw co have "keeps (current_vertex_index s) s ?b"
    by (auto simp: keeps_def frame_def)
  with r(3) have k: "keeps (current_vertex_index s) s t'"
    by (auto intro: keeps_trans)
  from ug uva uv r(1) Cons
  have "for_key_names wl ?s0 = Inr (False, t')" by simp
  with r(2,4) k show ?thesis by simp
qed

text \<open>One round for a vertex with an empty search result, and a work list that is not empty.\<close>

lemma iteration_unmatched:
  assumes "consistent s" and "current_vertex_index s < total_vertices s"
    and "vertex_search s (current_vertex_index s) = Inr []" and "wl \<noteq> []"
  shows "\<exists>s1. for_key_names wl (s\<lparr>do_once_per_vertex := True\<rparr>)
                = Inr (\<not> skip_vertices_with_no_pair s, s1) \<and>
           consistent s1 \<and> frame s s1 \<and> dest_mesh s1 = dest_mesh s \<and>
           (skip_vertices_with_no_pair s \<longrightarrow>
              current_vertex_index s1 = min (current_vertex_index s + length wl) (total_vertices s)) \<and>
           (\<not> skip_vertices_with_no_pair s \<longrightarrow>
              current_vertex_index s1 = current_vertex_index s + 1 \<and>
              message s1 = ''Failed to find surrounding vertices | Try increasing increment radius | vertex index ''
                        @ str (current_vertex_index s) @ '' at shape key index ''
                        @ str (src_shape_key_index s1))"
proof -
  from assms(4) obtain k ks where wl: "wl = k # ks" by (cases wl) auto
  let ?s0 = "s\<lparr>do_once_per_vertex := True\<rparr>"
  have c0: "consistent ?s0" by (rule consistent_fields [OF assms(1)]) simp_all
  from update_global_consistent [OF c0, of k] obtain di si where
    ug: "update_global_shapekey_indices k ?s0
            = Inr (?s0\<lparr>dest_shape_key_index := di, src_shape_key_index := si\<rparr>)"
    and ca: "consistent (?s0\<lparr>dest_shape_key_index := di, src_shape_key_index := si\<rparr>)"
    by blast
  let ?a = "?s0\<lparr>dest_shape_key_index := di, src_shape_key_index := si\<rparr>"
  have fa: "frame s ?a" by (simp add: frame_def)
  from vertex_search_frame [OF fa, of "current_vertex_index s"] assms(3)
  have vs: "vertex_search ?a (current_vertex_index ?a) = Inr []" by simp
  have "do_once_per_vertex ?a" by simp
  from search_once_vertex_search [OF this vs] obtain w where
    so: "search_once ?a = Inr (?a\<lparr>current_vertex := Some w, src_chosen_vertices := [],
                                      do_once_per_vertex := False\<rparr>)"
    by blast
  let ?c = "?a\<lparr>current_vertex := Some w, src_chosen_vertices := [],
                                      do_once_per_vertex := False\<rparr>"
  from assms(2) have lta: "current_vertex_index ?a < total_vertices ?a" by simp
  from update_vertex_after_search [OF so lta] have uva: "update_vertex ?a = update_vertex ?c" .
  let ?e = "?c\<lparr>message := ''Failed to find surrounding vertices | Try increasing increment radius | vertex index ''
                        @ str (current_vertex_index ?c) @ '' at shape key index ''
                        @ str (src_shape_key_index ?c),
        current_vertex_index := current_vertex_index ?c + 1\<rparr>"
  from assms(2) have "update_vertex ?c = Inr (\<not> skip_vertices_with_no_pair ?c, ?e)"
    by (intro update_vertex_unmatched) simp_all
  then have uv: "update_vertex ?c = Inr (\<not> skip_vertices_with_no_pair s, ?e)" by simp
  have ce: "consistent ?e" by (rule consistent_fields [OF ca]) simp_all
  have fe: "frame s ?e" by (simp add: frame_def)
  show ?thesis
  proof (cases "skip_vertices_with_no_pair s")
    case False
    with ug uva uv wl have "for_key_names wl ?s0 = Inr (\<not> skip_vertices_with_no_pair s, ?e)"
      by simp
    moreover have "message ?e = ''Failed to find surrounding vertices | Try increasing increment radius | vertex index ''
                        @ str (current_vertex_index s) @ '' at shape key index ''
                        @ str (src_shape_key_index ?e)"
      by simp
    moreover have "dest_mesh ?e = dest_mesh s" "current_vertex_index ?e = current_vertex_index s + 1"
      by simp_all
    ultimately show ?thesis using ce fe False by blast
  next
    case True
    then have pe: "\<not> do_once_per_vertex ?e" "src_chosen_vertices ?e = []"
      "skip_vertices_with_no_pair ?e" by simp_all
    from for_key_names_skipping [OF ce pe, of ks] obtain t' where
      r: "for_key_names ks ?e = Inr (False, t')" "consistent t'" "frame ?e t'"
        "dest_mesh t' = dest_mesh ?e"
        "current_vertex_index t' =
             (if total_vertices ?e \<le> current_vertex_index ?e then current_vertex_index ?e
              else min (current_vertex_index ?e + length ks) (total_vertices ?e))"
      by blast
    from ug uva uv wl True r(1)
    have 1: "for_key_names wl ?s0 = Inr (\<not> skip_vertices_with_no_pair s, t')" by simp
    from fe r(3) have 2: "frame s t'" by (rule frame_trans)
    from r(4) have 3: "dest_mesh t' = dest_mesh s" by simp
    from r(5) have e: "current_vertex_index t' =
        (if total_vertices s \<le> current_vertex_index s + 1 then current_vertex_index s + 1
         else min (current_vertex_index s + 1 + length ks) (total_vertices s))"
      by simp
    have 4: "current_vertex_index t' =
        min (current_vertex_index s + Suc (length ks)) (total_vertices s)"
    proof (cases "total_vertices s \<le> current_vertex_index s + 1")
      case T: True
      with e have "current_vertex_index t' = current_vertex_index s + 1" by simp
      with T assms(2) show ?thesis by arith
    next
      case F: False
      with e have "current_vertex_index t' =
          min (current_vertex_index s + 1 + length ks) (total_vertices s)" by simp
      then show ?thesis by arith
    qed
    from 1 2 3 4 r(2) True wl show ?thesis by simp
  qed
qed


lemma while_step:
  assumes "current_vertex_index s < total_vertices s"
    and "for_key_names wl (s\<lparr>do_once_per_vertex := True\<rparr>) = Inr (False, s1)"
  shows "while_vertices wl s
       = while_vertices wl (s1\<lparr>current_vertex_index := current_vertex_index s1 + 1\<rparr>)"
  using assms by (subst while_vertices.simps) simp

lemma while_abort:
  assumes "current_vertex_index s < total_vertices s"
    and "for_key_names wl (s\<lparr>do_once_per_vertex := True\<rparr>) = Inr (True, s1)"
  shows "while_vertices wl s = Inr (False, s1)"
  using assms by (subst while_vertices.simps) simp

lemma while_done:
  assumes "\<not> current_vertex_index s < total_vertices s"
  shows "while_vertices wl s = Inr (True, s\<lparr>message := ''Transferred Shape Keys successfully!''\<rparr>)"
  using assms by (subst while_vertices.simps) simp

text \<open>One round of the loop over the vertices when unmatched vertices are skipped.\<close>

lemma iteration_skip:
  assumes "consistent s" and "current_vertex_index s < total_vertices s"
    and "skip_vertices_with_no_pair s"
  shows "\<exists>s1. for_key_names wl (s\<lparr>do_once_per_vertex := True\<rparr>) = Inr (False, s1) \<and>
           consistent s1 \<and> frame s s1 \<and> current_vertex_index s \<le> current_vertex_index s1 \<and>
           (\<forall>k j. j \<noteq> current_vertex_index s \<or> vertex_search s (current_vertex_index s) = Inr []
               \<longrightarrow> key_co (dest_mesh s1) k j = key_co (dest_mesh s) k j)"
proof -
  from assms(1,2) obtain verts basis where
    vs: "vertex_search s (current_vertex_index s) = Inr verts"
    and "key_data (src_mesh s) 0 = Inr basis"
    by (rule vertex_search_returns)
  show ?thesis
  proof (cases "verts = []")
    case False
    from iteration_matched [OF assms(1,2) vs False, of wl] obtain s1 where
      r: "for_key_names wl (s\<lparr>do_once_per_vertex := True\<rparr>) = Inr (False, s1)"
        "consistent s1" "keeps (current_vertex_index s) s s1"
        "current_vertex_index s1 = current_vertex_index s"
      by blast
    from vs False have "vertex_search s (current_vertex_index s) \<noteq> Inr []" by simp
    with r keeps_frame [OF r(3)] keeps_co [OF r(3)] show ?thesis by auto
  next
    case True
    show ?thesis
    proof (cases "wl = []")
      case T: True
      have "consistent (s\<lparr>do_once_per_vertex := True\<rparr>)"
        by (rule consistent_fields [OF assms(1)]) simp_all
      moreover have "frame s (s\<lparr>do_once_per_vertex := True\<rparr>)" by (simp add: frame_def)
      ultimately show ?thesis using T by simp
    next
      case F: False
      from vs True have vs0: "vertex_search s (current_vertex_index s) = Inr []" by simp
      from iteration_unmatched [OF assms(1,2) vs0 F] assms(3) obtain s1 where
        r: "for_key_names wl (s\<lparr>do_once_per_vertex := True\<rparr>) = Inr (False, s1)"
          "consistent s1" "frame s s1" "dest_mesh s1 = dest_mesh s"
          "current_vertex_index s1 = min (current_vertex_index s + length wl) (total_vertices s)"
        by auto
      from r(5) assms(2) have "current_vertex_index s \<le> current_vertex_index s1" by simp
      with r show ?thesis by auto
    qed
  qed
qed

lemma skip_run:
  assumes "consistent s" and "skip_vertices_with_no_pair s"
  shows "\<exists>s'. while_vertices wl s = Inr (True, s') \<and>
           message s' = ''Transferred Shape Keys successfully!'' \<and>
           (\<forall>k j. j < current_vertex_index s \<or> vertex_search s j = Inr []
               \<longrightarrow> key_co (dest_mesh s') k j = key_co (dest_mesh s) k j)"
  using assms
proof (induction wl s rule: while_vertices.induct)
  case (1 wl s)
  show ?case
  proof (cases "current_vertex_index s < total_vertices s")
    case False
    from while_done [OF False, of wl] show ?thesis by simp
  next
    case lt: True
    from iteration_skip [OF "1.prems"(1) lt "1.prems"(2), of wl] obtain s1 where
      r: "for_key_names wl (s\<lparr>do_once_per_vertex := True\<rparr>) = Inr (False, s1)"
        "consistent s1" "frame s s1" "current_vertex_index s \<le> current_vertex_index s1"
      and co: "\<forall>k j. j \<noteq> current_vertex_index s \<or> vertex_search s (current_vertex_index s) = Inr []
               \<longrightarrow> key_co (dest_mesh s1) k j = key_co (dest_mesh s) k j"
      by blast
    let ?n = "s1\<lparr>current_vertex_index := current_vertex_index s1 + 1\<rparr>"
    from r(3) have fn: "frame s ?n" by (simp add: frame_def)
    have p1: "consistent ?n" by (rule consistent_fields [OF r(2)]) simp_all
    have p2: "skip_vertices_with_no_pair ?n" using r(3) "1.prems"(2) by (simp add: frame_def)
    from "1.IH" [OF lt r(1) refl _ p1 p2] obtain s' where
      s': "while_vertices wl ?n = Inr (True, s')"
        "message s' = ''Transferred Shape Keys successfully!''"
        "\<forall>k j. j < current_vertex_index ?n \<or> vertex_search ?n j = Inr []
               \<longrightarrow> key_co (dest_mesh s') k j = key_co (dest_mesh ?n) k j"
      by auto
    have "\<forall>k j. j < current_vertex_index s \<or> vertex_search s j = Inr []
               \<longrightarrow> key_co (dest_mesh s') k j = key_co (dest_mesh s) k j"
    proof (intro allI impI)
      fix k j assume a: "j < current_vertex_index s \<or> vertex_search s j = Inr []"
      then have c: "j \<noteq> current_vertex_index s \<or> vertex_search s (current_vertex_index s) = Inr []"
        by auto
      with co have same1: "key_co (dest_mesh s1) k' j = key_co (dest_mesh s) k' j" for k'
        by blast
      then have "key_co (dest_mesh ?n) 0 j = key_co (dest_mesh s) 0 j" by simp
      from vertex_search_frame [OF fn this] have vsn: "vertex_search ?n j = vertex_search s j" .
      from a r(4) vsn have "j < current_vertex_index ?n \<or> vertex_search ?n j = Inr []"
        by auto
      with s'(3) have "key_co (dest_mesh s') k j = key_co (dest_mesh ?n) k j" by blast
      with same1 [of k] show "key_co (dest_mesh s') k j = key_co (dest_mesh s) k j" by simp
    qed
    with while_step [OF lt r(1)] s'(1,2) show ?thesis by simp
  qed
qed

lemmas edge_defs = edge_state_def edge_src_def edge_dest_def skt_init_def identity_matrix_def

lemmas run_defs = while_vertices.simps update_global_shapekey_indices_def index_of_name_def
  update_vertex_def search_once_def select_required_verts.simps select_vertices_def Let_def
  average_position_def set_vertex_position_def str.simps digit_def

lemma face_consistent: "consistent face_ready" "consistent face_skip"
  by (simp_all add: consistent_def face_skip_def face_defs)

lemma face_search:
  "vertex_search face_ready 0 = Inr [0]" "vertex_search face_ready 1 = Inr []"
  "vertex_search face_skip 1 = Inr []"
  by (simp_all add: vertex_search_def face_skip_def face_defs access_defs
      select_required_verts.simps select_vertices_def Let_def)

lemma edge_facts:
  "consistent edge_state" "vertex_search edge_state 1 = Inr []"
  by (simp_all add: consistent_def vertex_search_def edge_defs access_defs
      select_required_verts.simps select_vertices_def Let_def)

text \<open>
  C4.  Let \<open>skip_vertices_with_no_pair\<close> be false and the work list not empty (only then
  a search is made at all), and let the loop stand at or before vertex \<open>i\<close>, where
  vertex \<open>i\<close> is the first vertex from the cursor on whose search returns the empty
  list.  Then the loop returns \<open>False\<close> (no exception is raised on the way); the message
  ends with the index \<open>i\<close> and the index of the source key; the cursor stops at
  \<open>i + 1\<close>; and in every destination key the positions of vertex \<open>i\<close> and of all
  vertices after it are what they were when the loop started.
\<close>

theorem abort_on_unmatched:
  assumes "\<not> skip_vertices_with_no_pair s" and "wl \<noteq> []" and "consistent s"
    and "current_vertex_index s \<le> i" and "i < total_vertices s"
    and "\<forall>j. current_vertex_index s \<le> j \<and> j < i \<longrightarrow> vertex_search s j \<noteq> Inr []"
    and "vertex_search s i = Inr []"
  shows "\<exists>s'. while_vertices wl s = Inr (False, s') \<and>
           message s' = ''Failed to find surrounding vertices | Try increasing increment radius | vertex index ''
                        @ str i @ '' at shape key index '' @ str (src_shape_key_index s') \<and>
           current_vertex_index s' = i + 1 \<and>
           (\<forall>k j. i \<le> j \<longrightarrow> key_co (dest_mesh s') k j = key_co (dest_mesh s) k j)"
  using assms
proof (induction wl s rule: while_vertices.induct)
  case (1 wl s)
  from "1.prems"(4,5) have lt: "current_vertex_index s < total_vertices s" by simp
  show ?case
  proof (cases "current_vertex_index s = i")
    case True
    with "1.prems" have vs: "vertex_search s (current_vertex_index s) = Inr []" by simp
    from iteration_unmatched [OF "1.prems"(3) lt vs "1.prems"(2)] "1.prems"(1) obtain s1 where
      r: "for_key_names wl (s\<lparr>do_once_per_vertex := True\<rparr>) = Inr (True, s1)"
        "dest_mesh s1 = dest_mesh s" "current_vertex_index s1 = current_vertex_index s + 1"
        "message s1 = ''Failed to find surrounding vertices | Try increasing increment radius | vertex index ''
                        @ str (current_vertex_index s) @ '' at shape key index ''
                        @ str (src_shape_key_index s1)"
      by auto
    from while_abort [OF lt r(1)] r(2,3,4) True show ?thesis by simp
  next
    case False
    with "1.prems"(4) have lti: "current_vertex_index s < i" by simp
    with "1.prems"(6) have ne: "vertex_search s (current_vertex_index s) \<noteq> Inr []" by simp
    from "1.prems"(3) lt obtain verts basis where
      vs: "vertex_search s (current_vertex_index s) = Inr verts"
      and "key_data (src_mesh s) 0 = Inr basis"
      by (rule vertex_search_returns)
    with ne have vne: "verts \<noteq> []" by auto
    from iteration_matched [OF "1.prems"(3) lt vs vne, of wl] obtain s1 where
      r: "for_key_names wl (s\<lparr>do_once_per_vertex := True\<rparr>) = Inr (False, s1)"
        "consistent s1" "keeps (current_vertex_index s) s s1"
        "current_vertex_index s1 = current_vertex_index s"
      by blast
    let ?n = "s1\<lparr>current_vertex_index := current_vertex_index s1 + 1\<rparr>"
    from r(3) have f1: "frame s s1" by (rule keeps_frame)
    then have fn: "frame s ?n" by (simp add: frame_def)
    have p1: "\<not> skip_vertices_with_no_pair ?n" using f1 "1.prems"(1) by (simp add: frame_def)
    have p3: "consistent ?n" by (rule consistent_fields [OF r(2)]) simp_all
    have p4: "current_vertex_index ?n \<le> i" using r(4) lti by simp
    have p5: "i < total_vertices ?n" using f1 "1.prems"(5) by (simp add: frame_def)
    have same: "vertex_search ?n j = vertex_search s j" if "current_vertex_index s < j" for j
    proof (rule vertex_search_frame [OF fn])
      from that have "j \<noteq> current_vertex_index s" by simp
      from keeps_co [OF r(3) this, of 0]
      show "key_co (dest_mesh ?n) 0 j = key_co (dest_mesh s) 0 j" by simp
    qed
    have p6: "\<forall>j. current_vertex_index ?n \<le> j \<and> j < i \<longrightarrow> vertex_search ?n j \<noteq> Inr []"
      using same "1.prems"(6) r(4) by simp
    have p7: "vertex_search ?n i = Inr []"
      using same [OF lti] "1.prems"(7) by simp
    from "1.IH" [OF lt r(1) refl _ p1 "1.prems"(2) p3 p4 p5 p6 p7] obtain s' where
      s': "while_vertices wl ?n = Inr (False, s')"
        "message s' = ''Failed to find surrounding vertices | Try increasing increment radius | vertex index ''
                        @ str i @ '' at shape key index '' @ str (src_shape_key_index s')"
        "current_vertex_index s' = i + 1"
        "\<forall>k j. i \<le> j \<longrightarrow> key_co (dest_mesh s') k j = key_co (dest_mesh ?n) k j"
      by auto
    have "\<forall>k j. i \<le> j \<longrightarrow> key_co (dest_mesh s') k j = key_co (dest_mesh s) k j"
    proof (intro allI impI)
      fix k j assume "i \<le> j"
      with lti have "j \<noteq> current_vertex_index s" by simp
      from keeps_co [OF r(3) this, of k] s'(4) \<open>i \<le> j\<close>
      show "key_co (dest_mesh s') k j = key_co (dest_mesh s) k j" by simp
    qed
    with while_step [OF lt r(1)] s'(1,2,3) show ?thesis by simp
  qed
qed


theorem abort_on_unmatched_witness:
  "\<not> skip_vertices_with_no_pair face_ready \<and> consistent face_ready \<and>
   vertex_search face_ready 0 = Inr [0] \<and> vertex_search face_ready 1 = Inr [] \<and>
   (\<exists>s'. while_vertices [''Smile''] face_ready = Inr (False, s') \<and>
      message s' = ''Failed to find surrounding vertices | Try increasing increment radius | vertex index ''
                        @ str 1 @ '' at shape key index '' @ str (src_shape_key_index s') \<and>
      current_vertex_index s' = 2 \<and>
      key_co (dest_mesh s') 1 2 = key_co (dest_mesh face_ready) 1 2)"
proof -
  have h1: "\<not> skip_vertices_with_no_pair face_ready" by (simp add: face_defs)
  have h2: "[''Smile''] \<noteq> []" by simp
  have h4: "current_vertex_index face_ready \<le> 1" by (simp add: face_defs)
  have h5: "1 < total_vertices face_ready" by (simp add: face_defs)
  have h6: "\<forall>j. current_vertex_index face_ready \<le> j \<and> j < 1 \<longrightarrow>
      vertex_search face_ready j \<noteq> Inr []"
    by (simp add: face_search)
  from abort_on_unmatched [OF h1 h2 face_consistent(1) h4 h5 h6 face_search(2)]
  obtain s' where s': "while_vertices [''Smile''] face_ready = Inr (False, s')"
    "message s' = ''Failed to find surrounding vertices | Try increasing increment radius | vertex index ''
                        @ str 1 @ '' at shape key index '' @ str (src_shape_key_index s')"
    "current_vertex_index s' = 1 + 1"
    "\<forall>k j. 1 \<le> j \<longrightarrow> key_co (dest_mesh s') k j = key_co (dest_mesh face_ready) k j"
    by blast
  from s'(4) have "key_co (dest_mesh s') 1 2 = key_co (dest_mesh face_ready) 1 2" by simp
  with s'(1,2,3) h1 face_consistent(1) face_search(1,2) show ?thesis by auto
qed

text \<open>
  C5.  Let \<open>skip_vertices_with_no_pair\<close> be true.  Then the loop returns \<open>True\<close> with the
  success message (no exception is raised on the way), and for every destination vertex
  \<open>i\<close> whose search returns the empty list, the position of vertex \<open>i\<close> in every
  destination key is what it was when the loop started.  (The keys of the work list are
  created by the same call just before the loop; the keys that existed before are never
  written.)
\<close>

theorem skip_unmatched_success:
  assumes "consistent s" and "skip_vertices_with_no_pair s" and "vertex_search s i = Inr []"
  shows "\<exists>s'. while_vertices wl s = Inr (True, s') \<and>
           message s' = ''Transferred Shape Keys successfully!'' \<and>
           (\<forall>k. key_co (dest_mesh s') k i = key_co (dest_mesh s) k i)"
proof -
  from skip_run [OF assms(1,2), of wl] obtain s' where
    s': "while_vertices wl s = Inr (True, s')"
      "message s' = ''Transferred Shape Keys successfully!''"
      "\<forall>k j. j < current_vertex_index s \<or> vertex_search s j = Inr []
               \<longrightarrow> key_co (dest_mesh s') k j = key_co (dest_mesh s) k j"
    by blast
  from s'(3) assms(3) have "\<forall>k. key_co (dest_mesh s') k i = key_co (dest_mesh s) k i" by blast
  with s'(1,2) show ?thesis by blast
qed

theorem skip_unmatched_success_witness:
  "consistent face_skip \<and> skip_vertices_with_no_pair face_skip \<and>
   vertex_search face_skip 1 = Inr [] \<and>
   (\<exists>s'. while_vertices [''Smile''] face_skip = Inr (True, s') \<and>
      message s' = ''Transferred Shape Keys successfully!'' \<and>
      key_co (dest_mesh s') 1 1 = Inr (Vector 100 0 0))"
proof -
  have h2: "skip_vertices_with_no_pair face_skip" by (simp add: face_skip_def)
  have k: "key_co (dest_mesh face_skip) 1 1 = Inr (Vector 100 0 0)"
    by (simp add: face_skip_def face_defs access_defs)
  from skip_unmatched_success [OF face_consistent(2) h2 face_search(3), of "[''Smile'']"] k
    face_consistent(2) h2 face_search(3)
  show ?thesis by auto
qed

text \<open>
  C10 (as amended).  Let \<open>skip_vertices_with_no_pair\<close> be true, the work list have
  \<open>n \<ge> 1\<close> names, and the cursor stand on a vertex \<open>i\<close> whose search returns the empty
  list.  The round for vertex \<open>i\<close> leaves the destination mesh as it was, and the loop
  goes on with the cursor at \<open>min (i + n) total_vertices + 1\<close>: the unmatched branch
  advances the cursor once for each key name as long as the cursor is inside the mesh,
  and the outer loop once more.  This is \<open>i + n + 1\<close> when \<open>i + n \<le> total_vertices\<close>.
  The vertices passed over are never the cursor of a round, so no search is made for
  them, and at the end of the loop the positions of all vertices up to
  \<open>min (i + n) total_vertices\<close> are what they were before the round.
\<close>

theorem skip_advances_cursor:
  assumes "consistent s" and "skip_vertices_with_no_pair s" and "wl \<noteq> []"
    and "current_vertex_index s < total_vertices s"
    and "vertex_search s (current_vertex_index s) = Inr []"
  shows "\<exists>s1 s'. for_key_names wl (s\<lparr>do_once_per_vertex := True\<rparr>) = Inr (False, s1) \<and>
           dest_mesh s1 = dest_mesh s \<and>
           current_vertex_index s1 + 1
             = min (current_vertex_index s + length wl) (total_vertices s) + 1 \<and>
           (current_vertex_index s + length wl \<le> total_vertices s \<longrightarrow>
              current_vertex_index s1 + 1 = current_vertex_index s + (length wl + 1)) \<and>
           while_vertices wl s
             = while_vertices wl (s1\<lparr>current_vertex_index := current_vertex_index s1 + 1\<rparr>) \<and>
           while_vertices wl s = Inr (True, s') \<and>
           (\<forall>k j. j \<le> min (current_vertex_index s + length wl) (total_vertices s) \<longrightarrow>
               key_co (dest_mesh s') k j = key_co (dest_mesh s) k j)"
proof -
  from iteration_unmatched [OF assms(1,4,5,3)] assms(2) obtain s1 where
    r: "for_key_names wl (s\<lparr>do_once_per_vertex := True\<rparr>) = Inr (False, s1)"
      "consistent s1" "frame s s1" "dest_mesh s1 = dest_mesh s"
      "current_vertex_index s1 = min (current_vertex_index s + length wl) (total_vertices s)"
    by auto
  let ?n = "s1\<lparr>current_vertex_index := current_vertex_index s1 + 1\<rparr>"
  have cn: "consistent ?n" by (rule consistent_fields [OF r(2)]) simp_all
  have sn: "skip_vertices_with_no_pair ?n" using r(3) assms(2) by (simp add: frame_def)
  from skip_run [OF cn sn, of wl] obtain s' where
    s': "while_vertices wl ?n = Inr (True, s')"
      "\<forall>k j. j < current_vertex_index ?n \<or> vertex_search ?n j = Inr []
               \<longrightarrow> key_co (dest_mesh s') k j = key_co (dest_mesh ?n) k j"
    by blast
  note ws = while_step [OF assms(4) r(1)]
  have 1: "current_vertex_index s1 + 1
             = min (current_vertex_index s + length wl) (total_vertices s) + 1"
    using r(5) by simp
  have 2: "current_vertex_index s + length wl \<le> total_vertices s \<longrightarrow>
              current_vertex_index s1 + 1 = current_vertex_index s + (length wl + 1)"
    using r(5) by simp
  have 3: "while_vertices wl s = Inr (True, s')" using ws s'(1) by simp
  have 4: "\<forall>k j. j \<le> min (current_vertex_index s + length wl) (total_vertices s) \<longrightarrow>
               key_co (dest_mesh s') k j = key_co (dest_mesh s) k j"
  proof (intro allI impI)
    fix k j assume "j \<le> min (current_vertex_index s + length wl) (total_vertices s)"
    moreover from r(5) have "current_vertex_index ?n
        = min (current_vertex_index s + length wl) (total_vertices s) + 1" by simp
    ultimately have "j < current_vertex_index ?n" by arith
    with s'(2) have "key_co (dest_mesh s') k j = key_co (dest_mesh ?n) k j" by blast
    with r(4) show "key_co (dest_mesh s') k j = key_co (dest_mesh s) k j" by simp
  qed
  from r(1,4) 1 2 ws 3 4 show ?thesis by blast
qed

theorem skip_advances_cursor_witness:
  "consistent face_skip \<and> skip_vertices_with_no_pair face_skip \<and>
   vertex_search (face_skip\<lparr>current_vertex_index := 1\<rparr>)
      (current_vertex_index (face_skip\<lparr>current_vertex_index := 1\<rparr>)) = Inr [] \<and>
   (\<exists>s1 s'. for_key_names [''Smile''] (face_skip\<lparr>current_vertex_index := 1,
                                                 do_once_per_vertex := True\<rparr>) = Inr (False, s1) \<and>
      current_vertex_index s1 + 1 = 3 \<and>
      while_vertices [''Smile''] (face_skip\<lparr>current_vertex_index := 1\<rparr>) = Inr (True, s') \<and>
      key_co (dest_mesh s') 1 2 = Inr (Vector 1 0 0))"
proof -
  let ?s = "face_skip\<lparr>current_vertex_index := 1\<rparr>"
  have h1: "consistent ?s" by (rule consistent_fields [OF face_consistent(2)]) simp_all
  have h2: "skip_vertices_with_no_pair ?s" by (simp add: face_skip_def)
  have h3: "[''Smile''] \<noteq> []" by simp
  have h4: "current_vertex_index ?s < total_vertices ?s" by (simp add: face_skip_def face_defs)
  have h5: "vertex_search ?s (current_vertex_index ?s) = Inr []"
    by (simp add: vertex_search_def face_skip_def face_defs access_defs
      select_required_verts.simps select_vertices_def Let_def)
  have k: "key_co (dest_mesh ?s) 1 2 = Inr (Vector 1 0 0)"
    by (simp add: face_skip_def face_defs access_defs)
  have t: "total_vertices ?s = 3" "current_vertex_index ?s = 1"
    by (simp_all add: face_skip_def face_defs)
  from skip_advances_cursor [OF h1 h2 h3 h4 h5] obtain s1 s' where
    r: "for_key_names [''Smile''] (?s\<lparr>do_once_per_vertex := True\<rparr>) = Inr (False, s1)"
      "current_vertex_index s1 + 1
             = min (current_vertex_index ?s + length [''Smile'']) (total_vertices ?s) + 1"
      "while_vertices [''Smile''] ?s = Inr (True, s')"
      "\<forall>k j. j \<le> min (current_vertex_index ?s + length [''Smile'']) (total_vertices ?s) \<longrightarrow>
               key_co (dest_mesh s') k j = key_co (dest_mesh ?s) k j"
    by blast
  from r(2) t have c: "current_vertex_index s1 + 1 = 3" by simp
  from r(4) t have "key_co (dest_mesh s') 1 2 = key_co (dest_mesh ?s) 1 2" by simp
  with k have "key_co (dest_mesh s') 1 2 = Inr (Vector 1 0 0)" by simp
  with r(1,3) c face_consistent(2) h2 h5 show ?thesis by auto
qed

text \<open>
  C10 as the specification states it fails for an unmatched vertex near the end of the
  mesh: with 2 vertices, a work list of \<open>n = 2\<close> names and the cursor on the unmatched
  vertex 1, the second call of \<open>update_vertex\<close> returns at once because the cursor has
  left the mesh, and the loop ends with the cursor at 3, an advance of 2 and not of
  \<open>n + 1 = 3\<close>.
\<close>

theorem cursor_advance_counterexample:
  "consistent edge_state \<and> skip_vertices_with_no_pair edge_state \<and>
   current_vertex_index edge_state = 1 \<and> total_vertices edge_state = 2 \<and>
   vertex_search edge_state 1 = Inr [] \<and> length [''Smile'', ''Frown''] = 2 \<and>
   for_key_names [''Smile'', ''Frown''] (edge_state\<lparr>do_once_per_vertex := True\<rparr>)
     = Inr (False, edge_state\<lparr>current_vertex_index := 2, dest_shape_key_index := 2,
         src_shape_key_index := 2, do_once_per_vertex := False,
         current_vertex := Some (Vector 100 0 0), src_chosen_vertices := [],
         message := ''Failed to find surrounding vertices | Try increasing increment radius | vertex index 1 at shape key index 1''\<rparr>) \<and>
   while_vertices [''Smile'', ''Frown''] edge_state
     = Inr (True, edge_state\<lparr>current_vertex_index := 3, dest_shape_key_index := 2,
         src_shape_key_index := 2, do_once_per_vertex := False,
         current_vertex := Some (Vector 100 0 0), src_chosen_vertices := [],
         message := ''Transferred Shape Keys successfully!''\<rparr>)"
  by (simp add: consistent_def vertex_search_def run_defs edge_defs access_defs)

section \<open>The whole transfer\<close>

lemma key_blocks_Inr:
  "key_blocks ob = Inr kbs \<longleftrightarrow> (\<exists>m. ob = Some m \<and> shape_keys m = Some kbs)"
  by (auto simp: key_blocks_def split: option.splits)

lemma add_missing_shape_keys_lengths:
  assumes "add_missing_shape_keys lu skbs (s, wl) = Inr (s', wl')"
    and "key_blocks (dest_mesh s) = Inr dkbs" and "dkbs \<noteq> []"
    and "\<forall>dk \<in> set dkbs. n \<le> length (data dk)"
  shows "\<exists>dkbs'. key_blocks (dest_mesh s') = Inr dkbs' \<and> dkbs' \<noteq> [] \<and>
           (\<forall>dk \<in> set dkbs'. n \<le> length (data dk)) \<and> length dkbs \<le> length dkbs'"
  using assms
proof (induction skbs arbitrary: s wl dkbs)
  case Nil
  then show ?case by auto
next
  case (Cons k ks)
  from Cons.prems(1) obtain s1 wl1 where
    step: "add_missing_step lu k (s, wl) = Inr (s1, wl1)"
    and rest: "add_missing_shape_keys lu ks (s1, wl1) = Inr (s', wl')"
    by (auto split: sum.splits)
  from add_missing_step_result [OF step Cons.prems(2)]
  consider (same) "s1 = s" "wl1 = wl"
    | (added) d :: Object and sk where "key_blocks (dest_mesh s1) = Inr (dkbs @ [sk])"
        "data sk = (case dkbs of [] \<Rightarrow> vertices d | b # _ \<Rightarrow> data b)"
    by blast
  then show ?case
  proof cases
    case same
    with rest Cons.IH [OF _ Cons.prems(2,3,4)] show ?thesis by simp
  next
    case added
    from Cons.prems(3) obtain b bs where b: "dkbs = b # bs" by (cases dkbs) auto
    with added(2) have "data sk = data b" by simp
    with b Cons.prems(4) have len: "\<forall>dk \<in> set (dkbs @ [sk]). n \<le> length (data dk)" by auto
    have ne: "dkbs @ [sk] \<noteq> []" by simp
    from Cons.IH [OF rest added(1) ne len] obtain dkbs' where
      "key_blocks (dest_mesh s') = Inr dkbs'" "dkbs' \<noteq> []"
      "\<forall>dk \<in> set dkbs'. n \<le> length (data dk)" "length (dkbs @ [sk]) \<le> length dkbs'"
      by blast
    then show ?thesis by auto
  qed
qed

text \<open>
  A transfer between two well-formed objects, started with key indices in range (as they
  are in a fresh \<open>ShapeKeyTransfer()\<close>), reaches the loop over the vertices in a consistent
  state, with the cursor at vertex 0, and returns what the loop returns.
\<close>

lemma transfer_enters_loop:
  assumes "inverted (matrix_world src) = Some mwi" and "shape_keys src = Some skbs"
    and "skbs \<noteq> []" and "\<forall>sk \<in> set skbs. length (data (skbs ! 0)) \<le> length (data sk)"
    and "key_blocks (Some (if shape_keys dest = None then shape_key_add ''Basis'' dest else dest))
           = Inr dkbs"
    and "dkbs \<noteq> []" and "\<forall>dk \<in> set dkbs. length (vertices dest) \<le> length (data dk)"
    and "\<not> specify_end_vertex s0"
    and "src_shape_key_index s0 < length skbs" and "dest_shape_key_index s0 < length dkbs"
  shows "\<exists>s5 wl. transfer_shape_keys inverted lu (Some src) (Some dest) False s0
             = while_vertices wl s5 \<and>
           consistent s5 \<and> current_vertex_index s5 = 0 \<and>
           total_vertices s5 = length (vertices dest) \<and>
           skip_vertices_with_no_pair s5 = skip_vertices_with_no_pair s0"
proof -
  let ?d4 = "if shape_keys dest = None then shape_key_add ''Basis'' dest else dest"
  let ?s3 = "s0\<lparr>src_mesh := Some src, dest_mesh := Some dest, src_mwi := Some mwi,
      current_vertex_index := 0, total_vertices := length (vertices dest)\<rparr>"
  let ?s4 = "?s3\<lparr>dest_mesh := Some ?d4\<rparr>"
  from assms(5) have kb4: "key_blocks (dest_mesh ?s4) = Inr dkbs" by simp
  from add_missing_shape_keys_result [OF kb4, of lu skbs "[]"] obtain s5 wl new d' where
    r1: "add_missing_shape_keys lu skbs (?s4, []) = Inr (s5, wl)" and r2: "s5 = ?s4\<lparr>dest_mesh := d'\<rparr>"
    and "key_blocks (dest_mesh s5) = Inr (dkbs @ new)"
    by (elim exE conjE)
  from add_missing_shape_keys_lengths [OF r1 kb4 assms(6,7)] obtain dkbs' where
    k5: "key_blocks (dest_mesh s5) = Inr dkbs'" "dkbs' \<noteq> []"
      "\<forall>dk \<in> set dkbs'. length (vertices dest) \<le> length (data dk)"
      "length dkbs \<le> length dkbs'"
    by blast
  from k5(1) obtain d5 where d5: "dest_mesh s5 = Some d5" "shape_keys d5 = Some dkbs'"
    by (auto simp: key_blocks_Inr)
  have c: "consistent s5"
  proof (rule consistentI [of _ src d5 mwi skbs dkbs'])
    show "src_mesh s5 = Some src" "src_mwi s5 = Some mwi" using r2 by simp_all
    show "dest_mesh s5 = Some d5" "shape_keys d5 = Some dkbs'" by (rule d5)+
    show "shape_keys src = Some skbs" "skbs \<noteq> []"
      "\<forall>sk \<in> set skbs. length (data (skbs ! 0)) \<le> length (data sk)" by (rule assms)+
    show "dkbs' \<noteq> []" by (rule k5)
    show "\<forall>dk \<in> set dkbs'. total_vertices s5 \<le> length (data dk)" using k5(3) r2 by simp
    show "src_shape_key_index s5 < length skbs" using r2 assms(9) by simp
    show "dest_shape_key_index s5 < length dkbs'" using r2 assms(10) k5(4) by simp
  qed
  have "transfer_shape_keys inverted lu (Some src) (Some dest) False s0 = while_vertices wl s5"
  proof (cases "shape_keys dest = None")
    case True
    with r1 have "add_missing_shape_keys lu skbs
        (?s3\<lparr>dest_mesh := Some (shape_key_add ''Basis'' dest)\<rparr>, []) = Inr (s5, wl)"
      by simp
    with True assms(1,2,8) show ?thesis
      unfolding transfer_shape_keys_def Let_def
      by (simp add: key_blocks_def dest_shape_key_add_def)
  next
    case False
    then have d4: "?d4 = dest" by (rule if_not_P)
    have e: "?s3\<lparr>dest_mesh := Some dest\<rparr> = ?s3" by (cases s0) simp
    from r1 have "add_missing_shape_keys lu skbs (?s3, []) = Inr (s5, wl)"
      unfolding d4 e .
    moreover from False obtain y where "shape_keys dest = Some y" by auto
    ultimately show ?thesis
      unfolding transfer_shape_keys_def Let_def
      using assms(1,2,8) by (simp add: key_blocks_def)
  qed
  with c r2 show ?thesis by auto
qed

lemma transfer_skip_succeeds:
  assumes "inverted (matrix_world src) = Some mwi" and "shape_keys src = Some skbs"
    and "skbs \<noteq> []" and "\<forall>sk \<in> set skbs. length (data (skbs ! 0)) \<le> length (data sk)"
    and "key_blocks (Some (if shape_keys dest = None then shape_key_add ''Basis'' dest else dest))
           = Inr dkbs"
    and "dkbs \<noteq> []" and "\<forall>dk \<in> set dkbs. length (vertices dest) \<le> length (data dk)"
    and "\<not> specify_end_vertex s0"
    and "src_shape_key_index s0 < length skbs" and "dest_shape_key_index s0 < length dkbs"
    and "skip_vertices_with_no_pair s0"
  shows "\<exists>s'. transfer_shape_keys inverted lu (Some src) (Some dest) False s0 = Inr (True, s') \<and>
           message s' = ''Transferred Shape Keys successfully!''"
proof -
  from transfer_enters_loop [of inverted src mwi skbs dest dkbs s0 lu, OF assms(1-10)]
  obtain s5 wl where
    r: "transfer_shape_keys inverted lu (Some src) (Some dest) False s0 = while_vertices wl s5"
      "consistent s5" "skip_vertices_with_no_pair s5 = skip_vertices_with_no_pair s0"
    by blast
  from r(3) assms(11) have "skip_vertices_with_no_pair s5" by simp
  from skip_run [OF r(2) this, of wl] r(1) show ?thesis by auto
qed

text \<open>
  A whole call on the example meshes, aborting at the unmatched vertex 1 after vertex 0
  has been written.
\<close>

lemma face_transfer_abort:
  "transfer_shape_keys inverted_identity use_all (Some face_src) (Some face_dest) False
      (skt_init\<lparr>increment_radius := 1, number_of_increments := 1\<rparr>)
     = Inr (False, skt_init\<lparr>increment_radius := 1, number_of_increments := 1,
      src_mesh := Some face_src, src_mwi := Some identity_matrix, total_vertices := 3,
      current_vertex_index := 2, dest_shape_key_index := 1, src_shape_key_index := 1,
      do_once_per_vertex := False, current_vertex := Some (Vector 100 0 0),
      src_chosen_vertices := [],
      message := ''Failed to find surrounding vertices | Try increasing increment radius | vertex index 1 at shape key index 1'',
      dest_mesh := Some (face_dest_smile\<lparr>shape_keys := Some
         [\<lparr>name = ''Basis'', data = [Vector 0 0 0, Vector 100 0 0, Vector 1 0 0]\<rparr>,
          \<lparr>name = ''Smile'', data = [Vector 0 0 1, Vector 100 0 0, Vector 1 0 0]\<rparr>]\<rparr>)\<rparr>)"
  by (simp add: transfer_shape_keys_def inverted_identity_def
      add_missing_step_def add_and_list_def dest_shape_key_add_def shape_key_add_def
      run_defs face_defs access_defs)



text \<open>
  The keys that were on the destination before the call are not written by the loop.
\<close>

lemma last_index_from:
  "p \<in> name ` set kbs \<Longrightarrow>
   n \<le> fold (\<lambda>(index, sk) i. if name sk = p then index else i) (enumerate n kbs) cur"
proof (induction kbs rule: rev_induct)
  case Nil
  then show ?case by simp
next
  case (snoc x xs)
  then show ?case
    by (cases "name x = p") (auto simp: enumerate_snoc)
qed

lemma index_of_name_new:
  assumes "p \<in> name ` set new"
  shows "length old \<le> index_of_name p (old @ new) cur"
  using last_index_from [OF assms, of "length old"]
  by (simp add: index_of_name_def enumerate_append_eq)

lemma set_vertex_position_new:
  assumes "set_vertex_position v s = Inr s'" and "key_blocks (dest_mesh s) = Inr (old @ new)"
    and "length old \<le> dest_shape_key_index s"
  shows "\<exists>new'. key_blocks (dest_mesh s') = Inr (old @ new') \<and> map name new' = map name new"
proof -
  from assms(2) obtain d where d: "dest_mesh s = Some d" "shape_keys d = Some (old @ new)"
    by (auto simp: key_blocks_def split: option.splits)
  let ?i = "dest_shape_key_index s"
  let ?sk = "((old @ new) ! ?i)\<lparr>data := (data ((old @ new) ! ?i))[current_vertex_index s := v]\<rparr>"
  from assms(1) d have lt: "?i < length (old @ new)"
    and s': "s' = s\<lparr>dest_mesh := Some (d\<lparr>shape_keys := Some ((old @ new)[?i := ?sk])\<rparr>)\<rparr>"
    by (auto simp: set_vertex_position_def Let_def split: if_splits)
  from assms(3) have up: "(old @ new)[?i := ?sk] = old @ new[?i - length old := ?sk]"
    by (simp add: list_update_append)
  from assms(3) lt have lt2: "?i - length old < length new" by auto
  from assms(3) have nth: "(old @ new) ! ?i = new ! (?i - length old)"
    by (simp add: nth_append)
  have "map name (new[?i - length old := ?sk]) = map name new"
    using lt2 unfolding nth by (simp add: map_update list_update_same_conv)
  with s' up show ?thesis
    by (simp add: key_blocks_def)
qed

lemma update_vertex_new:
  assumes "update_vertex s = Inr (ab, s')" and "key_blocks (dest_mesh s) = Inr (old @ new)"
    and "length old \<le> dest_shape_key_index s"
  shows "\<exists>new'. key_blocks (dest_mesh s') = Inr (old @ new') \<and> map name new' = map name new"
proof (cases "src_chosen_vertices s' \<noteq> [] \<and> current_vertex_index s < total_vertices s")
  case True
  from update_vertex_blend [OF assms(1)] True obtain s1 v where
    s1: "search_once s = Inr s1" and sv: "set_vertex_position v s1 = Inr s'"
    by blast
  note f = search_once_fields [OF s1]
  from f assms(2,3) have "key_blocks (dest_mesh s1) = Inr (old @ new)"
    "length old \<le> dest_shape_key_index s1" by simp_all
  from set_vertex_position_new [OF sv this] show ?thesis .
next
  case False
  have "dest_mesh s' = dest_mesh s"
  proof (cases "current_vertex_index s < total_vertices s")
    case F: False
    with assms(1) show ?thesis by (simp add: update_vertex_def)
  next
    case T: True
    with False have e: "src_chosen_vertices s' = []" by simp
    from assms(1) T obtain s1 where s1: "search_once s = Inr s1"
      by (auto simp: update_vertex_def split: sum.splits)
    note f = search_once_fields [OF s1]
    show ?thesis
    proof (cases "src_chosen_vertices s1 = []")
      case True
      with assms(1) T s1 f show ?thesis
        by (auto simp: update_vertex_def Let_def split: if_splits)
    next
      case ne: False
      with assms(1) T s1 obtain v where sv: "set_vertex_position v s1 = Inr s'"
        by (auto simp: update_vertex_def split: sum.splits option.splits)
      from set_vertex_position_result [OF sv] have "src_chosen_vertices s' = src_chosen_vertices s1"
        by auto
      with e ne show ?thesis by simp
    qed
  qed
  with assms(2) show ?thesis by auto
qed

lemma for_key_names_new:
  assumes "for_key_names wl s = Inr (ab, s')" and "key_blocks (dest_mesh s) = Inr (old @ new)"
    and "\<forall>k \<in> set wl. k \<in> name ` set new"
  shows "\<exists>new'. key_blocks (dest_mesh s') = Inr (old @ new') \<and> map name new' = map name new"
  using assms
proof (induction wl arbitrary: s new)
  case Nil
  then show ?case by auto
next
  case (Cons k ks)
  from Cons.prems(1) obtain s1 ab2 s2 where
    ug: "update_global_shapekey_indices k s = Inr s1" and uv: "update_vertex s1 = Inr (ab2, s2)"
    and rest: "(ab2 \<and> s' = s2) \<or> (\<not> ab2 \<and> for_key_names ks s2 = Inr (ab, s'))"
    by (auto split: sum.splits if_splits)
  from ug Cons.prems(2) have d1: "dest_mesh s1 = dest_mesh s"
    and i1: "dest_shape_key_index s1 = index_of_name k (old @ new) (dest_shape_key_index s)"
    by (auto simp: update_global_shapekey_indices_def split: sum.splits)
  from Cons.prems(3) have "k \<in> name ` set new" by simp
  from index_of_name_new [OF this, of old] i1 have ge: "length old \<le> dest_shape_key_index s1"
    by simp
  from d1 Cons.prems(2) have kb1: "key_blocks (dest_mesh s1) = Inr (old @ new)" by simp
  from update_vertex_new [OF uv kb1 ge] obtain new2 where
    n2: "key_blocks (dest_mesh s2) = Inr (old @ new2)" "map name new2 = map name new"
    by blast
  from rest show ?case
  proof
    assume "ab2 \<and> s' = s2"
    with n2 show ?thesis by auto
  next
    assume r: "\<not> ab2 \<and> for_key_names ks s2 = Inr (ab, s')"
    from n2(2) have "name ` set new2 = name ` set new"
      by (metis list.set_map)
    with Cons.prems(3) have "\<forall>k \<in> set ks. k \<in> name ` set new2" by simp
    from Cons.IH [OF _ n2(1) this] r obtain new' where
      "key_blocks (dest_mesh s') = Inr (old @ new')" "map name new' = map name new2"
      by blast
    with n2(2) show ?thesis by auto
  qed
qed

text \<open>
  The loop over the vertices writes only into keys of the work list: when the names of the
  work list are names of the key blocks \<open>new\<close> that the call has appended, the key blocks
  \<open>old\<close> that were there before come out of the loop as they went in.
\<close>

lemma while_vertices_keeps_old_keys:
  assumes "while_vertices wl s = Inr (r, s')" and "key_blocks (dest_mesh s) = Inr (old @ new)"
    and "\<forall>k \<in> set wl. k \<in> name ` set new"
  shows "\<exists>new'. key_blocks (dest_mesh s') = Inr (old @ new') \<and> map name new' = map name new"
  using assms
proof (induction wl s arbitrary: new rule: while_vertices.induct)
  case (1 wl s)
  show ?case
  proof (cases "current_vertex_index s < total_vertices s")
    case False
    with "1.prems"(1) have "s' = s\<lparr>message := ''Transferred Shape Keys successfully!''\<rparr>"
      by (simp add: while_done)
    with "1.prems"(2) show ?thesis by simp
  next
    case lt: True
    from "1.prems"(1) lt obtain ab s1 where
      fk: "for_key_names wl (s\<lparr>do_once_per_vertex := True\<rparr>) = Inr (ab, s1)"
      by (subst (asm) while_vertices.simps) (auto split: sum.splits)
    from "1.prems"(2) have kb0: "key_blocks (dest_mesh (s\<lparr>do_once_per_vertex := True\<rparr>))
        = Inr (old @ new)" by simp
    from for_key_names_new [OF fk kb0 "1.prems"(3)] obtain new1 where
      n1: "key_blocks (dest_mesh s1) = Inr (old @ new1)" "map name new1 = map name new"
      by blast
    show ?thesis
    proof (cases ab)
      case True
      with while_abort [OF lt] fk "1.prems"(1) have "s' = s1" by simp
      with n1 show ?thesis by auto
    next
      case False
      let ?n = "s1\<lparr>current_vertex_index := current_vertex_index s1 + 1\<rparr>"
      from False fk while_step [OF lt] "1.prems"(1)
      have w: "while_vertices wl ?n = Inr (r, s')" by simp
      from n1(1) have kbn: "key_blocks (dest_mesh ?n) = Inr (old @ new1)" by simp
      from n1(2) have "name ` set new1 = name ` set new" by (metis list.set_map)
      with "1.prems"(3) have nm: "\<forall>k \<in> set wl. k \<in> name ` set new1" by simp
      from False fk have fk': "for_key_names wl (s\<lparr>do_once_per_vertex := True\<rparr>) = Inr (False, s1)"
        by simp
      from "1.IH" [OF lt fk' refl _ w kbn nm] obtain new' where
        "key_blocks (dest_mesh s') = Inr (old @ new')" "map name new' = map name new1"
        by auto
      with n1(2) show ?thesis by auto
    qed
  qed
qed

text \<open>
  Together with the loop that adds the missing keys: the key blocks the destination had
  before the call are, after the transfer loop, still the first key blocks of the
  destination, with names and positions as before, and the key blocks after them are
  those of the work list.
\<close>

lemma transfer_keeps_existing_keys:
  assumes "key_blocks (dest_mesh s) = Inr dkbs"
    and "add_missing_shape_keys lu skbs (s, []) = Inr (s5, wl)"
    and "while_vertices wl s5 = Inr (r, s')"
  shows "\<exists>new'. key_blocks (dest_mesh s') = Inr (dkbs @ new') \<and> map name new' = wl"
proof -
  from add_missing_shape_keys_result [OF assms(1), of lu skbs "[]"] assms(2)
  obtain new d' where r2: "s5 = s\<lparr>dest_mesh := d'\<rparr>"
    and r3: "key_blocks (dest_mesh s5) = Inr (dkbs @ new)" and r4: "wl = [] @ map name new"
    by auto
  from r4 have nm: "\<forall>k \<in> set wl. k \<in> name ` set new" by simp
  from while_vertices_keeps_old_keys [OF assms(3) r3 nm] r4 show ?thesis by simp
qed

end
